theory Spec2Isabelle
  imports Complex_Main "HOL-Library.Multiset"
begin

section \<open>Strings and paths\<close>

text \<open>
  Exceptions are values. The plugin only ever reads \<open>str(e)\<close> of what it catches, so an
  exception is its class together with its message.
\<close>

datatype exn = OSError string | ValueError string

fun str_exn :: "exn \<Rightarrow> string" where
  "str_exn (OSError m) = m"
| "str_exn (ValueError m) = m"

text \<open>\<open>str.startswith\<close> and \<open>str.endswith\<close>.\<close>

definition startswith :: "string \<Rightarrow> string \<Rightarrow> bool" where
  "startswith s p \<longleftrightarrow> take (length p) s = p"

definition endswith :: "string \<Rightarrow> string \<Rightarrow> bool" where
  "endswith s p \<longleftrightarrow> length p \<le> length s \<and> drop (length s - length p) s = p"

text \<open>\<open>str.rfind\<close> for a single character: the index of its last occurrence, or \<open>-1\<close>.\<close>

definition rfind :: "string \<Rightarrow> char \<Rightarrow> int" where
  "rfind s c =
     (if c \<in> set s
      then int (length s) - 1 - int (length (takeWhile (\<lambda>x. x \<noteq> c) (rev s)))
      else - 1)"

text \<open>
  \<open>PurePath.suffix\<close> of a path whose final component is \<open>name\<close>:
  \<^verbatim>\<open>i = name.rfind('.'); return name[i:] if 0 < i < len(name) - 1 else ''\<close>.
  A leading dot (\<open>.log\<close>) or a trailing dot (\<open>a.\<close>) gives no suffix.
\<close>

definition path_suffix :: "string \<Rightarrow> string" where
  "path_suffix name =
     (let i = rfind name (CHR ''.'')
      in if 0 < i \<and> i < int (length name) - 1 then drop (nat i) name else [])"

text \<open>
  A \<open>Path\<close> is the list of its parts; an absolute POSIX path has the root \<open>/\<close> as its
  first part.
\<close>

type_synonym path = "string list"

fun split_sep :: "string \<Rightarrow> string \<Rightarrow> string list" where
  "split_sep acc [] = [rev acc]"
| "split_sep acc (c # cs) =
     (if c = CHR ''/'' then rev acc # split_sep [] cs else split_sep (c # acc) cs)"

text \<open>
  \<open>Path(s).parts\<close> on POSIX: split at \<open>/\<close>, drop empty and \<open>.\<close> components, keep the root
  (exactly two leading slashes are a root of their own).
\<close>

definition path_root :: "string \<Rightarrow> string list" where
  "path_root s =
     (if startswith s ''//'' \<and> \<not> startswith s ''///'' then [''//'']
      else if startswith s ''/'' then [''/'']
      else [])"

definition path_parts :: "string \<Rightarrow> path" where
  "path_parts s = path_root s @ filter (\<lambda>p. p \<noteq> [] \<and> p \<noteq> ''.'') (split_sep [] s)"

text \<open>\<open>Path.parent\<close>: the root and the empty path are their own parents.\<close>

definition path_parent :: "path \<Rightarrow> path" where
  "path_parent p = (if p = [''/''] \<or> p = [''//''] then p else butlast p)"

fun join_parts :: "string list \<Rightarrow> string" where
  "join_parts [] = []"
| "join_parts [p] = p"
| "join_parts (p # q # ps) = p @ ''/'' @ join_parts (q # ps)"

text \<open>\<open>str(path)\<close>.\<close>

definition str_path :: "path \<Rightarrow> string" where
  "str_path p =
     (case p of
        [] \<Rightarrow> ''.''
      | r # ps \<Rightarrow> if r = ''/'' \<or> r = ''//'' then r @ join_parts ps else join_parts (r # ps))"

text \<open>\<open>PurePath.relative_to\<close>: raises \<open>ValueError\<close> unless \<open>base\<close> is a prefix of the path.\<close>

definition relative_to :: "path \<Rightarrow> path \<Rightarrow> exn + path" where
  "relative_to p base =
     (if take (length base) p = base then Inr (drop (length base) p)
      else Inl (ValueError ''is not in the subpath of''))"

section \<open>The installation tree and \<open>os.walk\<close>\<close>

text \<open>
  The directory being archived, as \<open>os.walk\<close> lists it: a directory is the list of its
  entries in listing order, everything that is not a directory is a file. Symbolic links
  are left out (\<open>os.walk\<close> does not follow them).
\<close>

datatype fsnode = File | Dir "(string \<times> fsnode) list"

fun is_dir :: "fsnode \<Rightarrow> bool" where
  "is_dir File = False"
| "is_dir (Dir cs) = True"

text \<open>
  \<open>os.walk(top)\<close>, top-down: it yields \<open>(root, dirs, files)\<close> for the directory, lets the
  caller edit \<open>dirs\<close> in place, and then walks into the names left in \<open>dirs\<close>. The caller's
  edit is the parameter \<open>edit\<close>. A name that cannot be listed (missing, or not a directory)
  yields nothing, as \<open>os.walk\<close> ignores the errors of \<open>scandir\<close>.
\<close>

function os_walk :: "(string list \<Rightarrow> string list) \<Rightarrow> path \<Rightarrow> fsnode
    \<Rightarrow> (path \<times> string list \<times> string list) list" where
  "os_walk edit dirpath File = []"
| "os_walk edit dirpath (Dir cs) =
     (let dirs = map fst (filter (\<lambda>c. is_dir (snd c)) cs);
          files = map fst (filter (\<lambda>c. \<not> is_dir (snd c)) cs)
      in (dirpath, dirs, files) #
         concat (map (\<lambda>d. case map_of cs d of
                             None \<Rightarrow> []
                           | Some n \<Rightarrow> os_walk edit (dirpath @ [d]) n)
                     (edit dirs)))"
  by pat_completeness auto
termination
proof (relation "measure (\<lambda>(edit, dirpath, n). size n)")
  show "wf (measure (\<lambda>(edit, dirpath, n). size n))"
    by simp
next
  fix edit :: "string list \<Rightarrow> string list" and dirpath :: path
    and cs :: "(string \<times> fsnode) list" and dirs files :: "string list"
    and d :: string and n :: fsnode
  assume "map_of cs d = Some n"
  then have "size n < Suc (size_list (size_prod (\<lambda>x. 0) size) cs)"
    by (induction cs) (auto split: if_splits)
  then show "((edit, dirpath @ [d], n), (edit, dirpath, Dir cs))
      \<in> measure (\<lambda>(edit, dirpath, n). size n)"
    by simp
qed

section \<open>Configuration, clock and file names\<close>

text \<open>
  The plugin's configuration: a key that is absent is \<open>None\<close>, and every read is a
  \<open>config.get(key, default)\<close>.
\<close>

record config =
  cfg_backup_path :: "string option"
  cfg_max_backups :: "int option"
  cfg_cron_expression :: "string option"

record plugin =
  config :: config
  astrbot_path :: path

text \<open>\<open>config.get(key, default)\<close>.\<close>

definition config_get :: "'a option \<Rightarrow> 'a \<Rightarrow> 'a" where
  "config_get v d = (case v of None \<Rightarrow> d | Some x \<Rightarrow> x)"

text \<open>\<open>os.path.isabs\<close> on POSIX.\<close>

definition isabs :: "string \<Rightarrow> bool" where
  "isabs s \<longleftrightarrow> startswith s ''/''"

definition get_backup_path :: "plugin \<Rightarrow> path" where
  "get_backup_path self =
     (let backup_path = config_get (cfg_backup_path (config self)) []
      in if backup_path \<noteq> [] \<and> isabs backup_path then path_parts backup_path
         else path_parent (astrbot_path self))"

text \<open>
  What \<open>datetime.now()\<close> returns, and \<open>strftime("%Y%m%d_%H%M%S")\<close> on it: each field in
  decimal, zero-padded to four digits for the year and to two for the others.
\<close>

record datetime =
  dt_year :: nat
  dt_month :: nat
  dt_day :: nat
  dt_hour :: nat
  dt_minute :: nat
  dt_second :: nat

definition digit :: "nat \<Rightarrow> char" where
  "digit n = ''0123456789'' ! (n mod 10)"

definition dec2 :: "nat \<Rightarrow> string" where
  "dec2 n = [digit (n div 10), digit n]"

definition dec4 :: "nat \<Rightarrow> string" where
  "dec4 n = dec2 (n div 100) @ dec2 n"

definition strftime_stamp :: "datetime \<Rightarrow> string" where
  "strftime_stamp t =
     dec4 (dt_year t) @ dec2 (dt_month t) @ dec2 (dt_day t) @ ''_'' @
     dec2 (dt_hour t) @ dec2 (dt_minute t) @ dec2 (dt_second t)"

definition generate_backup_filename :: "datetime \<Rightarrow> string" where
  "generate_backup_filename t = ''astrbot_backup_'' @ strftime_stamp t @ ''.zip''"

section \<open>Exclusion rules and the archive writer\<close>

definition default_exclude_dirs :: "string list" where
  "default_exclude_dirs = [''.venv'', ''__pycache__'', ''.git'', ''node_modules'']"

definition should_exclude :: "string \<Rightarrow> string list option \<Rightarrow> bool" where
  "should_exclude p exclude_dirs =
     (let ex = (case exclude_dirs of None \<Rightarrow> default_exclude_dirs | Some l \<Rightarrow> l)
      in list_ex (\<lambda>part. part \<in> set ex) (path_parts p))"

text \<open>The edit of \<open>dirs\<close> at the head of the loop body: \<open>dirs[:] = [d for d in dirs if not ...]\<close>.\<close>

definition keep_dirs :: "string list \<Rightarrow> string list" where
  "keep_dirs dirs = filter (\<lambda>d. \<not> should_exclude d None) dirs"

definition excluded_suffixes :: "string list" where
  "excluded_suffixes = [''.pyc'', ''.log'', ''.tmp'']"

text \<open>\<open>Path.name\<close>: the final part.\<close>

definition path_name :: "path \<Rightarrow> string" where
  "path_name p = (if p = [] then [] else last p)"

text \<open>
  The inner loop \<open>for file in files\<close>. The open archive \<open>zipf\<close> is the list of the entry names
  written so far; \<open>wr\<close> says which error \<open>zipf.write\<close> raises on a path, if any. The result
  is the archive and the exception that ended the loop, if one did.
\<close>

fun write_files :: "(path \<Rightarrow> exn option) \<Rightarrow> path \<Rightarrow> path \<Rightarrow> string list \<Rightarrow> path list
    \<Rightarrow> path list \<times> exn option" where
  "write_files wr base dirpath [] zipf = (zipf, None)"
| "write_files wr base dirpath (file # files) zipf =
     (let file_path = dirpath @ [file]
      in if path_suffix (path_name file_path) \<in> set excluded_suffixes
         then write_files wr base dirpath files zipf
         else if startswith (path_name file_path) ''astrbot_backup_''
                 \<and> path_suffix (path_name file_path) = ''.zip''
         then write_files wr base dirpath files zipf
         else (case relative_to file_path base of
                 Inl e \<Rightarrow> (zipf, Some e)
               | Inr arcname \<Rightarrow>
                   (case wr file_path of
                      Some e \<Rightarrow> (zipf, Some e)
                    | None \<Rightarrow> write_files wr base dirpath files (zipf @ [arcname]))))"

text \<open>The outer loop over what \<open>os.walk\<close> yields.\<close>

fun walk_write :: "(path \<Rightarrow> exn option) \<Rightarrow> path \<Rightarrow> (path \<times> string list \<times> string list) list
    \<Rightarrow> path list \<Rightarrow> path list \<times> exn option" where
  "walk_write wr base [] zipf = (zipf, None)"
| "walk_write wr base ((dirpath, dirs, files) # rest) zipf =
     (case write_files wr base dirpath files zipf of
        (z, Some e) \<Rightarrow> (z, Some e)
      | (z, None) \<Rightarrow> walk_write wr base rest z)"

section \<open>The backup directory\<close>

text \<open>
  An entry of the backup directory: its name, what \<open>stat\<close> answers for it (an error, or size
  and modification time; only the order of the times is used), the error \<open>unlink\<close> raises on
  it if any (a directory, a locked file), and, for an archive, the names of its entries.
\<close>

record stat_result =
  st_size :: nat
  st_mtime :: int

record dentry =
  d_name :: string
  d_stat :: "exn + stat_result"
  d_unlink :: "exn option"
  d_entries :: "path list"

text \<open>\<open>ZipFile(backup_file, 'w')\<close> and its close: the file is created, or replaced if the name exists.\<close>

fun put_entry :: "dentry \<Rightarrow> dentry list \<Rightarrow> dentry list" where
  "put_entry e [] = [e]"
| "put_entry e (x # xs) = (if d_name x = d_name e then e # xs else x # put_entry e xs)"

text \<open>\<open>Path.stat\<close> and \<open>Path.unlink\<close> of a name in the directory.\<close>

fun stat_path :: "string \<Rightarrow> dentry list \<Rightarrow> exn + stat_result" where
  "stat_path n [] = Inl (OSError ''No such file or directory'')"
| "stat_path n (x # xs) = (if d_name x = n then d_stat x else stat_path n xs)"

fun unlink :: "string \<Rightarrow> dentry list \<Rightarrow> exn + dentry list" where
  "unlink n [] = Inl (OSError ''No such file or directory'')"
| "unlink n (x # xs) =
     (if d_name x = n
      then (case d_unlink x of Some e \<Rightarrow> Inl e | None \<Rightarrow> Inr xs)
      else (case unlink n xs of Inl e \<Rightarrow> Inl e | Inr ys \<Rightarrow> Inr (x # ys)))"

text \<open>\<open>backup_dir.glob("astrbot_backup_*.zip")\<close>, in listing order (case-sensitive, as on POSIX).\<close>

definition fnmatch_backup :: "string \<Rightarrow> bool" where
  "fnmatch_backup n \<longleftrightarrow>
     startswith n ''astrbot_backup_'' \<and> endswith (drop (length ''astrbot_backup_'') n) ''.zip''"

definition glob_backups :: "dentry list \<Rightarrow> string list" where
  "glob_backups dest = filter fnmatch_backup (map d_name dest)"

section \<open>Retention\<close>

text \<open>Python values, as far as the plugin returns them. A float is given by its exact value.\<close>

datatype pyval = PNone | PBool bool | PStr string | PFloat rat | PList "pyval list"

type_synonym pydict = "(string \<times> pyval) list"

text \<open>The lines retention writes to the log.\<close>

datatype log_event =
    LogDeleted string
  | LogDeleteFailed string exn
  | LogCleanupError exn

text \<open>The names the log reports as deleted, in the order of deletion.\<close>

fun deleted_names :: "log_event list \<Rightarrow> string list" where
  "deleted_names [] = []"
| "deleted_names (LogDeleted n # l) = n # deleted_names l"
| "deleted_names (LogDeleteFailed n e # l) = deleted_names l"
| "deleted_names (LogCleanupError e # l) = deleted_names l"

text \<open>The modification time of an entry whose \<open>stat\<close> succeeds.\<close>

definition d_mtime :: "dentry \<Rightarrow> int" where
  "d_mtime e = (case d_stat e of Inl x \<Rightarrow> 0 | Inr st \<Rightarrow> st_mtime st)"

text \<open>
  \<open>list.sort(key=lambda x: x.stat().st_mtime, reverse=True)\<close>. The keys are computed first,
  one \<open>stat\<close> per element; the first \<open>stat\<close> that raises ends the sort with the list as it was.
  The sort is stable also when reversed: the list is reversed, sorted ascending and stable,
  and reversed again.
\<close>

fun stat_keys :: "dentry list \<Rightarrow> string list \<Rightarrow> exn + (int \<times> string) list" where
  "stat_keys dest [] = Inr []"
| "stat_keys dest (n # ns) =
     (case stat_path n dest of
        Inl e \<Rightarrow> Inl e
      | Inr st \<Rightarrow>
          (case stat_keys dest ns of
             Inl e \<Rightarrow> Inl e
           | Inr ks \<Rightarrow> Inr ((st_mtime st, n) # ks)))"

definition sort_reverse :: "(int \<times> string) list \<Rightarrow> string list" where
  "sort_reverse ks = map snd (rev (sort_key fst (rev ks)))"

text \<open>The loop \<open>for old_backup in backup_files[max_backups:]\<close> with its own \<open>try\<close>.\<close>

fun unlink_loop :: "string list \<Rightarrow> dentry list \<Rightarrow> dentry list \<times> log_event list" where
  "unlink_loop [] dest = (dest, [])"
| "unlink_loop (b # bs) dest =
     (case unlink b dest of
        Inr dest' \<Rightarrow>
          (case unlink_loop bs dest' of (d, l) \<Rightarrow> (d, LogDeleted b # l))
      | Inl e \<Rightarrow>
          (case unlink_loop bs dest of (d, l) \<Rightarrow> (d, LogDeleteFailed b e # l)))"

text \<open>
  \<open>_cleanup_old_backups\<close>: the directory afterwards, the log lines, and the value returned,
  which is \<open>None\<close> on every path (a bare \<open>return\<close>, or the end of the body).
\<close>

definition cleanup_old_backups :: "plugin \<Rightarrow> dentry list
    \<Rightarrow> dentry list \<times> log_event list \<times> pyval" where
  "cleanup_old_backups self dest =
     (let max_backups = config_get (cfg_max_backups (config self)) 5
      in if max_backups \<le> 0 then (dest, [], PNone)
         else
           (let backup_files = glob_backups dest
            in case stat_keys dest backup_files of
                 Inl e \<Rightarrow> (dest, [LogCleanupError e], PNone)
               | Inr ks \<Rightarrow>
                   (let backup_files = sort_reverse ks
                    in if int (length backup_files) > max_backups
                       then (case unlink_loop (drop (nat max_backups) backup_files) dest of
                               (d, l) \<Rightarrow> (d, l, PNone))
                       else (dest, [], PNone))))"

section \<open>The backup\<close>

text \<open>
  The state the backup works on: the installation directory as \<open>os.walk\<close> lists it, and
  the listing of the directory \<open>_get_backup_path\<close> resolves to (empty when it does not
  exist yet).
\<close>

record world =
  w_tree :: fsnode
  w_dest :: "dentry list"

text \<open>
  What the operating system answers during one backup: the clock, the error of \<open>mkdir\<close>
  and of opening the archive for writing if any, the error of \<open>zipf.write\<close> per source
  path if any, and what \<open>stat\<close> reports for the archive once it is closed.
\<close>

record env =
  e_now :: datetime
  e_mkdir_fault :: "exn option"
  e_open_fault :: "exn option"
  e_write_fault :: "path \<Rightarrow> exn option"
  e_archive_stat :: "exn + stat_result"

text \<open>\<open>round(x, 2)\<close>: to the nearest hundredth, a tie to the even one.\<close>

definition round_half_even :: "rat \<Rightarrow> int" where
  "round_half_even x =
     (let f = \<lfloor>x\<rfloor>; r = x - of_int f
      in if r < 1 / 2 then f
         else if 1 / 2 < r then f + 1
         else if even f then f else f + 1)"

definition py_round2 :: "rat \<Rightarrow> rat" where
  "py_round2 x = of_int (round_half_even (x * 100)) / 100"

definition archive_entry :: "env \<Rightarrow> string \<Rightarrow> path list \<Rightarrow> dentry" where
  "archive_entry ev n zipf =
     \<lparr>d_name = n, d_stat = e_archive_stat ev, d_unlink = None, d_entries = zipf\<rparr>"

text \<open>
  The \<open>with zipfile.ZipFile(...) as zipf\<close> block: the walk with its writes. Leaving the
  block closes the archive, also when a write raised.
\<close>

definition build_archive :: "plugin \<Rightarrow> env \<Rightarrow> world \<Rightarrow> path list \<times> exn option" where
  "build_archive self ev w =
     walk_write (e_write_fault ev) (astrbot_path self)
       (os_walk keep_dirs (astrbot_path self) (w_tree w)) []"

text \<open>The body of the \<open>try\<close> in \<open>_create_backup\<close>: the state it leaves, and what it raises or returns.\<close>

definition create_backup_body :: "plugin \<Rightarrow> env \<Rightarrow> world \<Rightarrow> world \<times> (exn + pydict)" where
  "create_backup_body self ev w =
     (let backup_dir = get_backup_path self;
          backup_filename = generate_backup_filename (e_now ev);
          backup_file = backup_dir @ [backup_filename]
      in case e_mkdir_fault ev of
           Some e \<Rightarrow> (w, Inl e)
         | None \<Rightarrow>
             (case e_open_fault ev of
                Some e \<Rightarrow> (w, Inl e)
              | None \<Rightarrow>
                  (let w1 = w\<lparr>w_dest := put_entry (archive_entry ev backup_filename []) (w_dest w)\<rparr>;
                       (zipf, err) = build_archive self ev w1;
                       w2 = w1\<lparr>w_dest := put_entry (archive_entry ev backup_filename zipf) (w_dest w1)\<rparr>
                   in case err of
                        Some e \<Rightarrow> (w2, Inl e)
                      | None \<Rightarrow>
                          (case stat_path backup_filename (w_dest w2) of
                             Inl e \<Rightarrow> (w2, Inl e)
                           | Inr st \<Rightarrow>
                               (let file_size = st_size st;
                                    file_size_mb = rat_of_nat file_size / (1024 * 1024);
                                    (d, l, r) = cleanup_old_backups self (w_dest w2)
                                in (w2\<lparr>w_dest := d\<rparr>,
                                    Inr [(''success'', PBool True),
                                         (''path'', PStr (str_path backup_file)),
                                         (''size_mb'', PFloat (py_round2 file_size_mb)),
                                         (''filename'', PStr backup_filename)]))))))"

text \<open>\<open>_create_backup\<close>: the \<open>try\<close> with its \<open>except Exception\<close>.\<close>

definition create_backup :: "plugin \<Rightarrow> env \<Rightarrow> world \<Rightarrow> world \<times> pydict" where
  "create_backup self ev w =
     (case create_backup_body self ev w of
        (w', Inr result) \<Rightarrow> (w', result)
      | (w', Inl e) \<Rightarrow> (w', [(''success'', PBool False), (''error'', PStr (str_exn e))]))"

section \<open>The scheduler loop\<close>

text \<open>
  What the loop does that can be seen from outside: it begins a sleep, a backup is run
  for it, or it logs the error it caught.
\<close>

datatype action = Sleep rat | Backup pydict | LogTaskError exn

text \<open>
  The loop's surroundings. Per pass through the loop: whether computing the next run
  raises, or the seconds to wait that it gives, and the operating system's answers to
  that pass's backup.

  The flag \<open>_stop_backup\<close> starts false and is written by \<open>terminate\<close> alone, which sets
  it and, with no \<open>await\<close> in between, cancels the task. \<open>terminate\<close> can only run while
  the task is suspended: \<open>stop_at = Some k\<close> says that it runs during the task's \<open>k\<close>-th
  \<open>await\<close>, counted from 1 (with \<open>k = 0\<close>: before the task's first step), \<open>None\<close> that it
  never runs. The \<open>await\<close> during which the task is cancelled raises \<open>CancelledError\<close>.

  A backup handed to the thread pool cannot be interrupted once a worker thread has
  taken it up; while it is still queued, the cancellation drops it. \<open>worker_started i\<close>
  says which of the two holds for the backup of pass \<open>i\<close> at the moment of cancellation.
\<close>

record sched_env =
  cron_next :: "nat \<Rightarrow> exn + rat"
  stop_at :: "nat option"
  backup_env :: "nat \<Rightarrow> env"
  worker_started :: "nat \<Rightarrow> bool"

record sched_state =
  s_world :: world
  s_awaits :: nat
  s_iter :: nat
  s_trace :: "action list"

text \<open>The value of \<open>self._stop_backup\<close>.\<close>

definition stop_backup :: "sched_env \<Rightarrow> sched_state \<Rightarrow> bool" where
  "stop_backup senv s = (case stop_at senv of None \<Rightarrow> False | Some k \<Rightarrow> k \<le> s_awaits s)"

text \<open>Whether \<open>terminate\<close> runs during the \<open>await\<close> that the task begins in state \<open>s\<close>.\<close>

definition cancelled_here :: "sched_env \<Rightarrow> sched_state \<Rightarrow> bool" where
  "cancelled_here senv s = (stop_at senv = Some (Suc (s_awaits s)))"

text \<open>
  How a piece of the loop body ends: by going on to the next statement, with the \<open>break\<close>
  of the \<open>while\<close> loop, or with a \<open>CancelledError\<close>. That error is a \<open>BaseException\<close> and no
  \<open>Exception\<close>: the clause \<open>except Exception\<close> lets it pass, and it ends the task.
\<close>

datatype flow = Proceed | Break | Cancel

text \<open>\<open>await asyncio.sleep(d)\<close>.\<close>

definition do_sleep :: "rat \<Rightarrow> sched_env \<Rightarrow> sched_state \<Rightarrow> sched_state \<times> flow" where
  "do_sleep d senv s =
     (s\<lparr>s_awaits := Suc (s_awaits s), s_trace := s_trace s @ [Sleep d]\<rparr>,
      if cancelled_here senv s then Cancel else Proceed)"

text \<open>\<open>await asyncio.to_thread(self._create_backup)\<close>.\<close>

definition run_backup :: "plugin \<Rightarrow> sched_env \<Rightarrow> sched_state \<Rightarrow> sched_state \<times> flow" where
  "run_backup self senv s =
     (if cancelled_here senv s \<and> \<not> worker_started senv (s_iter s)
      then (s\<lparr>s_awaits := Suc (s_awaits s)\<rparr>, Cancel)
      else (case create_backup self (backup_env senv (s_iter s)) (s_world s) of
              (w', result) \<Rightarrow>
                (s\<lparr>s_world := w', s_awaits := Suc (s_awaits s),
                   s_trace := s_trace s @ [Backup result]\<rparr>,
                 if cancelled_here senv s then Cancel else Proceed)))"

text \<open>
  The loop \<open>for _ in range(int(wait_seconds / 60))\<close>: the flag is read before each minute,
  and its \<open>break\<close> leaves this inner loop only.
\<close>

fun wait_minutes :: "nat \<Rightarrow> sched_env \<Rightarrow> sched_state \<Rightarrow> sched_state \<times> flow" where
  "wait_minutes 0 senv s = (s, Proceed)"
| "wait_minutes (Suc n) senv s =
     (if stop_backup senv s then (s, Proceed)
      else (case do_sleep 60 senv s of
              (s1, Proceed) \<Rightarrow> wait_minutes n senv s1
            | (s1, fl) \<Rightarrow> (s1, fl)))"

text \<open>\<open>wait_seconds % 60\<close> on a float.\<close>

definition fmod60 :: "rat \<Rightarrow> rat" where
  "fmod60 x = x - 60 * of_int \<lfloor>x / 60\<rfloor>"

text \<open>The waiting phase, the body of \<open>if wait_seconds > 0\<close>.\<close>

definition waiting :: "sched_env \<Rightarrow> rat \<Rightarrow> sched_state \<Rightarrow> sched_state \<times> flow" where
  "waiting senv wait_seconds s =
     (case wait_minutes (nat \<lfloor>wait_seconds / 60\<rfloor>) senv s of
        (s1, Proceed) \<Rightarrow>
          (if stop_backup senv s1 then (s1, Break)
           else do_sleep (fmod60 wait_seconds) senv s1)
      | (s1, fl) \<Rightarrow> (s1, fl))"

text \<open>One pass through the body of \<open>while not self._stop_backup\<close>, the \<open>try\<close> with its \<open>except\<close>.\<close>

definition iteration :: "plugin \<Rightarrow> sched_env \<Rightarrow> sched_state \<Rightarrow> sched_state \<times> flow" where
  "iteration self senv s =
     (case cron_next senv (s_iter s) of
        Inl e \<Rightarrow> do_sleep 3600 senv (s\<lparr>s_trace := s_trace s @ [LogTaskError e]\<rparr>)
      | Inr wait_seconds \<Rightarrow>
          (case (if 0 < wait_seconds then waiting senv wait_seconds s else (s, Proceed)) of
             (s1, Proceed) \<Rightarrow> run_backup self senv s1
           | (s1, fl) \<Rightarrow> (s1, fl)))"

text \<open>How the task ends: the coroutine returns, or a \<open>CancelledError\<close> leaves it.\<close>

datatype ending = Returned | Cancelled

text \<open>
  \<open>_scheduled_backup_task\<close>. The loop need not end, so it runs on fuel, one unit for each
  pass: the result is the state reached, with \<open>None\<close> when the loop is still running
  after that many passes and \<open>Some\<close> of its ending when the task is over. \<open>s_iter\<close> counts
  the passes.
\<close>

fun scheduled_backup_task ::
  "nat \<Rightarrow> plugin \<Rightarrow> sched_env \<Rightarrow> sched_state \<Rightarrow> sched_state \<times> ending option" where
  "scheduled_backup_task 0 self senv s = (s, None)"
| "scheduled_backup_task (Suc fuel) self senv s =
     (if stop_backup senv s then (s, Some Returned)
      else (case iteration self senv s of
              (s', Proceed) \<Rightarrow> scheduled_backup_task fuel self senv (s'\<lparr>s_iter := Suc (s_iter s')\<rparr>)
            | (s', Break) \<Rightarrow> (s', Some Returned)
            | (s', Cancel) \<Rightarrow> (s', Some Cancelled)))"

text \<open>
  The task that \<open>initialize\<close> creates from the coroutine. A task cancelled before its first
  step never enters the coroutine's body.
\<close>

definition backup_task :: "nat \<Rightarrow> plugin \<Rightarrow> sched_env \<Rightarrow> world \<Rightarrow> sched_state \<times> ending option" where
  "backup_task fuel self senv w =
     (let s = \<lparr>s_world = w, s_awaits = 0, s_iter = 0, s_trace = []\<rparr>
      in if stop_at senv = Some 0 then (s, Some Cancelled)
         else scheduled_backup_task fuel self senv s)"

section \<open>Example inputs\<close>

definition demo_plugin :: plugin where
  "demo_plugin = \<lparr>config = \<lparr>cfg_backup_path = None, cfg_max_backups = None,
      cfg_cron_expression = None\<rparr>, astrbot_path = [''/'', ''srv'', ''astrbot'']\<rparr>"

definition demo_now :: datetime where
  "demo_now = \<lparr>dt_year = 2024, dt_month = 3, dt_day = 9, dt_hour = 4, dt_minute = 5,
      dt_second = 6\<rparr>"

definition demo_env :: env where
  "demo_env = \<lparr>e_now = demo_now, e_mkdir_fault = None, e_open_fault = None,
      e_write_fault = (\<lambda>p. None),
      e_archive_stat = Inr \<lparr>st_size = 1500000, st_mtime = 1000\<rparr>\<rparr>"

definition demo_tree :: fsnode where
  "demo_tree = Dir [(''app'', Dir [(''main.bin'', File),
       (''.venv'', Dir [(''lib.so'', File)]),
       (''cache.log'', File),
       (''astrbot_backup_20240101_000000.zip'', File)])]"

definition demo_world :: world where
  "demo_world = \<lparr>w_tree = demo_tree, w_dest = []\<rparr>"


definition backup_entry :: "string \<Rightarrow> int \<Rightarrow> dentry" where
  "backup_entry n t =
     \<lparr>d_name = n, d_stat = Inr \<lparr>st_size = 1000, st_mtime = t\<rparr>, d_unlink = None,
      d_entries = []\<rparr>"

definition seven_dest :: "dentry list" where
  "seven_dest =
     [backup_entry ''astrbot_backup_20240103_000000.zip'' 300,
      backup_entry ''astrbot_backup_20240101_000000.zip'' 100,
      backup_entry ''notes.txt'' 50,
      backup_entry ''astrbot_backup_20240107_000000.zip'' 700,
      backup_entry ''astrbot_backup_20240102_000000.zip'' 200,
      backup_entry ''astrbot_backup_20240105_000000.zip'' 500,
      backup_entry ''astrbot_backup_20240104_000000.zip'' 400,
      backup_entry ''astrbot_backup_20240106_000000.zip'' 600]"

definition five_dest :: "dentry list" where
  "five_dest =
     [backup_entry ''astrbot_backup_20240103_000000.zip'' 300,
      backup_entry ''notes.txt'' 50,
      backup_entry ''astrbot_backup_20240107_000000.zip'' 700,
      backup_entry ''astrbot_backup_20240105_000000.zip'' 500,
      backup_entry ''astrbot_backup_20240104_000000.zip'' 400,
      backup_entry ''astrbot_backup_20240106_000000.zip'' 600]"

definition locked_dest :: "dentry list" where
  "locked_dest =
     [backup_entry ''astrbot_backup_20240102_000000.zip'' 200,
      (backup_entry ''astrbot_backup_20240101_000000.zip'' 100)
        \<lparr>d_unlink := Some (OSError ''Permission denied'')\<rparr>,
      backup_entry ''astrbot_backup_20240103_000000.zip'' 300]"

definition keep_plugin :: "int \<Rightarrow> plugin" where
  "keep_plugin k = \<lparr>config = \<lparr>cfg_backup_path = None, cfg_max_backups = Some k,
      cfg_cron_expression = None\<rparr>, astrbot_path = [''/'', ''srv'', ''astrbot'']\<rparr>"

definition busy_tree :: fsnode where
  "busy_tree = Dir [(''a.txt'', File), (''b.txt'', File), (''c.txt'', File)]"

definition busy_world :: world where
  "busy_world = \<lparr>w_tree = busy_tree, w_dest = seven_dest\<rparr>"

definition vanished :: "path \<Rightarrow> exn option" where
  "vanished p =
     (if p = [''/'', ''srv'', ''astrbot'', ''b.txt'']
      then Some (OSError ''[Errno 2] No such file or directory'') else None)"


definition partial_entry :: dentry where
  "partial_entry =
     \<lparr>d_name = ''astrbot_backup_20240309_040506.zip'',
      d_stat = Inr \<lparr>st_size = 1500000, st_mtime = 1000\<rparr>, d_unlink = None,
      d_entries = [ [''a.txt''] ]\<rparr>"

definition demo_state :: sched_state where
  "demo_state = \<lparr>s_world = demo_world, s_awaits = 0, s_iter = 0, s_trace = []\<rparr>"

definition bad_cron :: exn where
  "bad_cron = ValueError ''Exactly 5, 6 or 7 columns has to be specified''"

definition bad_cron_env :: sched_env where
  "bad_cron_env =
     \<lparr>cron_next = (\<lambda>i. Inl bad_cron), stop_at = None, backup_env = (\<lambda>i. demo_env),
      worker_started = (\<lambda>i. True)\<rparr>"

definition recovering_env :: sched_env where
  "recovering_env =
     \<lparr>cron_next = (\<lambda>i. if i = 0 then Inl bad_cron else Inr 30), stop_at = None,
      backup_env = (\<lambda>i. demo_env), worker_started = (\<lambda>i. True)\<rparr>"

definition wait_env :: "rat \<Rightarrow> nat option \<Rightarrow> sched_env" where
  "wait_env wait_seconds k =
     \<lparr>cron_next = (\<lambda>i. Inr wait_seconds), stop_at = k, backup_env = (\<lambda>i. demo_env),
      worker_started = (\<lambda>i. True)\<rparr>"

section \<open>The walk and the exclusion rules\<close>

lemma excluded_dir_should_exclude:
  "d \<in> set default_exclude_dirs \<Longrightarrow> should_exclude d None"
  by (auto simp: default_exclude_dirs_def should_exclude_def path_parts_def path_root_def
      startswith_def)

lemma keep_dirs_clean: "d \<in> set (keep_dirs ds) \<Longrightarrow> d \<notin> set default_exclude_dirs"
  by (auto simp: keep_dirs_def dest: excluded_dir_should_exclude)

lemma os_walk_roots_gen:
  "\<forall>ds. set (edit ds) \<inter> set default_exclude_dirs = {} \<Longrightarrow>
   y \<in> set (os_walk edit base n) \<Longrightarrow>
   \<exists>rel. fst y = base @ rel \<and> set rel \<inter> set default_exclude_dirs = {}"
proof (induction edit base n arbitrary: y rule: os_walk.induct)
  case (1 edit dirpath)
  then show ?case by simp
next
  case (2 edit dirpath cs)
  let ?dirs = "map fst (filter (\<lambda>c. is_dir (snd c)) cs)"
  from "2.prems"(2) have "fst y = dirpath \<or>
      (\<exists>d \<in> set (edit ?dirs). y \<in> set (case map_of cs d of None \<Rightarrow> []
          | Some n \<Rightarrow> os_walk edit (dirpath @ [d]) n))"
    by (auto simp: Let_def)
  then show ?case
  proof
    assume "fst y = dirpath"
    then show ?thesis by simp
  next
    assume "\<exists>d \<in> set (edit ?dirs). y \<in> set (case map_of cs d of None \<Rightarrow> []
          | Some n \<Rightarrow> os_walk edit (dirpath @ [d]) n)"
    then obtain d where d: "d \<in> set (edit ?dirs)"
      and mem: "y \<in> set (case map_of cs d of None \<Rightarrow> []
          | Some n \<Rightarrow> os_walk edit (dirpath @ [d]) n)"
      by blast
    from mem obtain n where n: "map_of cs d = Some n"
      and mem': "y \<in> set (os_walk edit (dirpath @ [d]) n)"
      by (cases "map_of cs d") auto
    from "2.IH"[OF refl refl d n "2.prems"(1) mem']
    obtain rel where rel: "fst y = (dirpath @ [d]) @ rel" "set rel \<inter> set default_exclude_dirs = {}"
      by blast
    have "d \<notin> set default_exclude_dirs"
      using d "2.prems"(1) by blast
    with rel have "fst y = dirpath @ (d # rel) \<and> set (d # rel) \<inter> set default_exclude_dirs = {}"
      by simp
    then show ?thesis by blast
  qed
qed

lemma os_walk_roots:
  "y \<in> set (os_walk keep_dirs base n) \<Longrightarrow>
   \<exists>rel. fst y = base @ rel \<and> set rel \<inter> set default_exclude_dirs = {}"
  by (rule os_walk_roots_gen[of keep_dirs]) (auto dest: keep_dirs_clean)

lemma path_name_snoc [simp]: "path_name (p @ [f]) = f"
  by (simp add: path_name_def)

lemma path_name_snoc2 [simp]: "path_name (p @ q @ [f]) = f"
  by (simp add: path_name_def)

lemma write_files_Cons:
  "write_files wr base (base @ rel) (f # files) zipf =
     (if path_suffix f \<in> set excluded_suffixes
         \<or> (startswith f ''astrbot_backup_'' \<and> path_suffix f = ''.zip'')
      then write_files wr base (base @ rel) files zipf
      else (case wr (base @ rel @ [f]) of
              Some e \<Rightarrow> (zipf, Some e)
            | None \<Rightarrow> write_files wr base (base @ rel) files (zipf @ [rel @ [f]])))"
  by (simp add: Let_def relative_to_def)

lemma write_files_entries:
  "write_files wr base (base @ rel) files zipf = (z, err) \<Longrightarrow> arc \<in> set z \<Longrightarrow>
   arc \<in> set zipf \<or> (\<exists>f. arc = rel @ [f] \<and> path_suffix f \<notin> set excluded_suffixes
      \<and> \<not> (startswith f ''astrbot_backup_'' \<and> path_suffix f = ''.zip''))"
proof (induction files arbitrary: zipf)
  case Nil
  then show ?case by simp
next
  case (Cons f files)
  note eq = Cons.prems(1)[unfolded write_files_Cons]
  show ?case
  proof (cases "path_suffix f \<in> set excluded_suffixes
      \<or> (startswith f ''astrbot_backup_'' \<and> path_suffix f = ''.zip'')")
    case True
    with eq have "write_files wr base (base @ rel) files zipf = (z, err)"
      by (simp only: if_True)
    from Cons.IH[OF this Cons.prems(2)] show ?thesis .
  next
    case False
    show ?thesis
    proof (cases "wr (base @ rel @ [f])")
      case None
      with False eq
      have "write_files wr base (base @ rel) files (zipf @ [rel @ [f]]) = (z, err)"
        by (simp only: if_False option.case)
      from Cons.IH[OF this Cons.prems(2)] False show ?thesis by auto
    next
      case (Some e)
      with False eq have "z = zipf"
        by (simp only: if_False option.case prod.inject)
      with Cons.prems show ?thesis by simp
    qed
  qed
qed

lemma walk_write_entries:
  "walk_write wr base ys zipf = (z, err) \<Longrightarrow> arc \<in> set z \<Longrightarrow>
   \<forall>y \<in> set ys. \<exists>rel. fst y = base @ rel \<and> set rel \<inter> set default_exclude_dirs = {} \<Longrightarrow>
   arc \<in> set zipf \<or> (\<exists>rel f. arc = rel @ [f] \<and> set rel \<inter> set default_exclude_dirs = {}
      \<and> path_suffix f \<notin> set excluded_suffixes
      \<and> \<not> (startswith f ''astrbot_backup_'' \<and> path_suffix f = ''.zip''))"
proof (induction ys arbitrary: zipf)
  case Nil
  then show ?case by simp
next
  case (Cons y ys)
  obtain r ds fs where y: "y = (r, ds, fs)" by (cases y)
  from Cons.prems(3) y obtain rel where rel: "r = base @ rel"
      "set rel \<inter> set default_exclude_dirs = {}"
    by auto
  obtain z1 e1 where w1: "write_files wr base (base @ rel) fs zipf = (z1, e1)"
    by (cases "write_files wr base (base @ rel) fs zipf")
  have tl: "\<forall>y \<in> set ys. \<exists>rel. fst y = base @ rel \<and> set rel \<inter> set default_exclude_dirs = {}"
    using Cons.prems(3) by simp
  show ?case
  proof (cases e1)
    case None
    with Cons.prems(1) y rel w1 have "walk_write wr base ys z1 = (z, err)"
      by simp
    from Cons.IH[OF this Cons.prems(2) tl]
    show ?thesis
    proof
      assume "arc \<in> set z1"
      from write_files_entries[OF w1 this] rel(2) show ?thesis by blast
    next
      assume "\<exists>rel f. arc = rel @ [f] \<and> set rel \<inter> set default_exclude_dirs = {}
        \<and> path_suffix f \<notin> set excluded_suffixes
        \<and> \<not> (startswith f ''astrbot_backup_'' \<and> path_suffix f = ''.zip'')"
      then show ?thesis by blast
    qed
  next
    case (Some e)
    with Cons.prems(1) y rel w1 have "z = z1" by simp
    with Cons.prems(2) have "arc \<in> set z1" by simp
    from write_files_entries[OF w1 this] rel(2) show ?thesis by blast
  qed
qed

lemma build_archive_entries:
  "arc \<in> set (fst (build_archive self ev w)) \<Longrightarrow>
   \<exists>rel f. arc = rel @ [f] \<and> set rel \<inter> set default_exclude_dirs = {}
      \<and> path_suffix f \<notin> set excluded_suffixes
      \<and> \<not> (startswith f ''astrbot_backup_'' \<and> path_suffix f = ''.zip'')"
proof -
  assume a: "arc \<in> set (fst (build_archive self ev w))"
  obtain z err where b: "build_archive self ev w = (z, err)"
    by (cases "build_archive self ev w")
  have roots: "\<forall>y \<in> set (os_walk keep_dirs (astrbot_path self) (w_tree w)).
      \<exists>rel. fst y = astrbot_path self @ rel \<and> set rel \<inter> set default_exclude_dirs = {}"
    using os_walk_roots by blast
  from b have "walk_write (e_write_fault ev) (astrbot_path self)
       (os_walk keep_dirs (astrbot_path self) (w_tree w)) [] = (z, err)"
    by (simp add: build_archive_def)
  from walk_write_entries[OF this _ roots, of arc] a b show ?thesis by simp
qed

lemma path_suffix_zip: "p \<noteq> [] \<Longrightarrow> path_suffix (p @ ''.zip'') = ''.zip''"
  by (simp add: path_suffix_def rfind_def Let_def)

lemma fnmatch_backup_decomp:
  "fnmatch_backup f \<Longrightarrow> \<exists>m. f = ''astrbot_backup_'' @ m @ ''.zip''"
proof -
  assume a: "fnmatch_backup f"
  let ?r = "drop (length ''astrbot_backup_'') f"
  from a have p: "take (length ''astrbot_backup_'') f = ''astrbot_backup_''"
    and l: "length ''.zip'' \<le> length ?r"
    and d: "drop (length ?r - length ''.zip'') ?r = ''.zip''"
    by (simp_all add: fnmatch_backup_def startswith_def endswith_def)
  have "f = take (length ''astrbot_backup_'') f @ ?r"
    by (rule append_take_drop_id[symmetric])
  also have "?r = take (length ?r - length ''.zip'') ?r @ drop (length ?r - length ''.zip'') ?r"
    by (rule append_take_drop_id[symmetric])
  finally have "f = ''astrbot_backup_'' @ take (length ?r - length ''.zip'') ?r @ ''.zip''"
    using p d by simp
  then show ?thesis by blast
qed

lemma fnmatch_backup_intro: "fnmatch_backup (''astrbot_backup_'' @ m @ ''.zip'')"
  by (simp add: fnmatch_backup_def startswith_def endswith_def)

lemma fnmatch_backup_skipped:
  "fnmatch_backup f \<Longrightarrow> startswith f ''astrbot_backup_'' \<and> path_suffix f = ''.zip''"
proof -
  assume a: "fnmatch_backup f"
  then obtain m where m: "f = ''astrbot_backup_'' @ m @ ''.zip''"
    using fnmatch_backup_decomp by blast
  have "path_suffix ((''astrbot_backup_'' @ m) @ ''.zip'') = ''.zip''"
    by (rule path_suffix_zip) simp
  with m a show ?thesis by (simp add: fnmatch_backup_def)
qed

text \<open>
  Claim C1. No entry of an archive lies below a directory whose name is one of the
  excluded directory names, and no entry has an excluded suffix; the walk itself never
  enters a directory with an excluded name, so every directory it visits has a path
  below the installation directory that is free of excluded names.
\<close>

theorem excluded_never_archived:
  "(\<forall>arc \<in> set (fst (build_archive self ev w)).
      arc \<noteq> [] \<and> set (butlast arc) \<inter> set default_exclude_dirs = {}
      \<and> path_suffix (path_name arc) \<notin> set excluded_suffixes)
   \<and> (\<forall>y \<in> set (os_walk keep_dirs (astrbot_path self) (w_tree w)).
        \<exists>rel. fst y = astrbot_path self @ rel \<and> set rel \<inter> set default_exclude_dirs = {})"
proof (intro conjI ballI)
  fix arc assume "arc \<in> set (fst (build_archive self ev w))"
  from build_archive_entries[OF this] obtain rel f where
    "arc = rel @ [f]" "set rel \<inter> set default_exclude_dirs = {}"
    "path_suffix f \<notin> set excluded_suffixes"
    by blast
  then show "arc \<noteq> []" "set (butlast arc) \<inter> set default_exclude_dirs = {}"
    "path_suffix (path_name arc) \<notin> set excluded_suffixes"
    by simp_all
next
  fix y assume "y \<in> set (os_walk keep_dirs (astrbot_path self) (w_tree w))"
  then show "\<exists>rel. fst y = astrbot_path self @ rel \<and> set rel \<inter> set default_exclude_dirs = {}"
    by (rule os_walk_roots)
qed

lemma demo_walk:
  "os_walk keep_dirs [''/'', ''srv'', ''astrbot''] demo_tree =
     [([''/'', ''srv'', ''astrbot''], [''app''], []),
      ([''/'', ''srv'', ''astrbot'', ''app''], [''.venv''],
       [''main.bin'', ''cache.log'', ''astrbot_backup_20240101_000000.zip''])]"
  by (simp add: demo_tree_def keep_dirs_def should_exclude_def default_exclude_dirs_def
      path_parts_def path_root_def startswith_def Let_def)

lemma demo_build:
  "build_archive demo_plugin demo_env demo_world = ([ [''app'', ''main.bin''] ], None)"
  by (simp add: build_archive_def demo_plugin_def demo_env_def demo_world_def demo_walk
      path_suffix_def rfind_def excluded_suffixes_def startswith_def relative_to_def Let_def
      path_name_def)

text \<open>
  The scenario of the specification: of \<open>app/main.bin\<close>, \<open>app/.venv/lib.so\<close>,
  \<open>app/cache.log\<close> and an earlier backup, the archive holds \<open>app/main.bin\<close> only.
\<close>

theorem excluded_never_archived_witness:
  "fst (build_archive demo_plugin demo_env demo_world) = [ [''app'', ''main.bin''] ]
   \<and> set (butlast [''app'', ''main.bin'']) \<inter> set default_exclude_dirs = {}
   \<and> path_suffix (path_name [''app'', ''main.bin'']) \<notin> set excluded_suffixes
   \<and> (\<exists>rel. [''/'', ''srv'', ''astrbot'', ''app''] = astrbot_path demo_plugin @ rel
          \<and> set rel \<inter> set default_exclude_dirs = {})"
proof -
  have e: "fst (build_archive demo_plugin demo_env demo_world) = [ [''app'', ''main.bin''] ]"
    by (simp add: demo_build)
  have v: "([''/'', ''srv'', ''astrbot'', ''app''], [''.venv''],
       [''main.bin'', ''cache.log'', ''astrbot_backup_20240101_000000.zip''])
      \<in> set (os_walk keep_dirs (astrbot_path demo_plugin) (w_tree demo_world))"
    by (simp add: demo_plugin_def demo_world_def demo_walk)
  note t = excluded_never_archived[of demo_plugin demo_env demo_world]
  from t e have "set (butlast [''app'', ''main.bin'']) \<inter> set default_exclude_dirs = {}
      \<and> path_suffix (path_name [''app'', ''main.bin'']) \<notin> set excluded_suffixes"
    by simp
  moreover from t v have "\<exists>rel. [''/'', ''srv'', ''astrbot'', ''app''] = astrbot_path demo_plugin @ rel
          \<and> set rel \<inter> set default_exclude_dirs = {}"
    by fastforce
  ultimately show ?thesis using e by blast
qed

text \<open>
  Claim C2. No file whose name follows the backup naming convention (prefix
  \<open>astrbot_backup_\<close>, suffix \<open>.zip\<close>; the pattern retention globs for) is written into an
  archive; in particular no entry bears the name of the archive being written.
\<close>

theorem backups_never_archived:
  "\<forall>arc \<in> set (fst (build_archive self ev w)).
      \<not> fnmatch_backup (path_name arc)
      \<and> \<not> (startswith (path_name arc) ''astrbot_backup_'' \<and> path_suffix (path_name arc) = ''.zip'')
      \<and> path_name arc \<noteq> generate_backup_filename (e_now ev)"
proof
  fix arc assume "arc \<in> set (fst (build_archive self ev w))"
  from build_archive_entries[OF this] obtain rel f where
    arc: "arc = rel @ [f]"
    and f: "\<not> (startswith f ''astrbot_backup_'' \<and> path_suffix f = ''.zip'')"
    by blast
  from f have nm: "\<not> fnmatch_backup f"
    using fnmatch_backup_skipped by blast
  have "fnmatch_backup (generate_backup_filename (e_now ev))"
    unfolding generate_backup_filename_def by (rule fnmatch_backup_intro)
  with nm have "f \<noteq> generate_backup_filename (e_now ev)"
    by auto
  with arc f nm show "\<not> fnmatch_backup (path_name arc)
      \<and> \<not> (startswith (path_name arc) ''astrbot_backup_'' \<and> path_suffix (path_name arc) = ''.zip'')
      \<and> path_name arc \<noteq> generate_backup_filename (e_now ev)"
    by simp
qed

theorem backups_never_archived_witness:
  "fst (build_archive demo_plugin demo_env demo_world) = [ [''app'', ''main.bin''] ]
   \<and> generate_backup_filename (e_now demo_env) = ''astrbot_backup_20240309_040506.zip''
   \<and> \<not> fnmatch_backup (path_name [''app'', ''main.bin''])
   \<and> path_name [''app'', ''main.bin''] \<noteq> generate_backup_filename (e_now demo_env)"
proof -
  have e: "fst (build_archive demo_plugin demo_env demo_world) = [ [''app'', ''main.bin''] ]"
    by (simp add: demo_build)
  have g: "generate_backup_filename (e_now demo_env) = ''astrbot_backup_20240309_040506.zip''"
    by (simp add: generate_backup_filename_def strftime_stamp_def dec4_def dec2_def digit_def
        demo_env_def demo_now_def)
  note t = backups_never_archived[of demo_plugin demo_env demo_world]
  from t e have "\<not> fnmatch_backup (path_name [''app'', ''main.bin''])
      \<and> path_name [''app'', ''main.bin''] \<noteq> generate_backup_filename (e_now demo_env)"
    by simp
  with e g show ?thesis by blast
qed

section \<open>Properties of retention\<close>

lemma unlink_mset:
  "unlink n dest = Inr d \<Longrightarrow> \<exists>e. d_name e = n \<and> mset dest = add_mset e (mset d)"
proof (induction dest arbitrary: d)
  case Nil
  then show ?case by simp
next
  case (Cons x xs)
  show ?case
  proof (cases "d_name x = n")
    case True
    with Cons.prems have "d = xs" by (simp split: option.splits)
    with True show ?thesis by auto
  next
    case False
    with Cons.prems obtain ys where ys: "unlink n xs = Inr ys" "d = x # ys"
      by (auto split: sum.splits)
    from Cons.IH[OF ys(1)] obtain e where "d_name e = n" "mset xs = add_mset e (mset ys)"
      by blast
    with ys(2) show ?thesis by auto
  qed
qed

lemma unlink_loop_effect:
  "unlink_loop ns dest = (d, l) \<Longrightarrow>
   mset d \<subseteq># mset dest
   \<and> mset (map d_name dest) = mset (map d_name d) + mset (deleted_names l)
   \<and> mset (deleted_names l) \<subseteq># mset ns"
proof (induction ns arbitrary: dest d l)
  case Nil
  then show ?case by simp
next
  case (Cons b bs)
  show ?case
  proof (cases "unlink b dest")
    case (Inl e)
    obtain d1 l1 where r: "unlink_loop bs dest = (d1, l1)"
      by (cases "unlink_loop bs dest")
    with Inl Cons.prems have dl: "d = d1" "l = LogDeleteFailed b e # l1" by simp_all
    from Cons.IH[OF r] dl show ?thesis
      by (auto intro: subset_mset.order_trans)
  next
    case (Inr dest')
    obtain d1 l1 where r: "unlink_loop bs dest' = (d1, l1)"
      by (cases "unlink_loop bs dest'")
    with Inr Cons.prems have dl: "d = d1" "l = LogDeleted b # l1" by simp_all
    from unlink_mset[OF Inr] obtain e where e: "d_name e = b" "mset dest = add_mset e (mset dest')"
      by blast
    from Cons.IH[OF r] have ih: "mset d1 \<subseteq># mset dest'"
      "mset (map d_name dest') = mset (map d_name d1) + mset (deleted_names l1)"
      "mset (deleted_names l1) \<subseteq># mset bs"
      by simp_all
    from e(2) have "mset (map d_name dest) = add_mset b (mset (map d_name dest'))"
      using e(1) by (metis image_mset_add_mset mset_map)
    with ih dl e show ?thesis
      by (auto intro: subset_mset.order_trans)
  qed
qed

lemma stat_keys_names: "stat_keys dest ns = Inr ks \<Longrightarrow> map snd ks = ns"
  by (induction ns arbitrary: ks) (auto split: sum.splits)

lemma mset_sort_reverse: "mset (sort_reverse ks) = mset (map snd ks)"
proof -
  have "mset (rev (sort_key fst (rev ks))) = mset ks"
    by simp
  then have "image_mset snd (mset (rev (sort_key fst (rev ks)))) = image_mset snd (mset ks)"
    by (rule arg_cong)
  then show ?thesis
    by (simp add: sort_reverse_def)
qed

lemma glob_backups_match: "n \<in> set (glob_backups dest) \<Longrightarrow> fnmatch_backup n"
  by (simp add: glob_backups_def)

lemma cleanup_effect:
  assumes c: "cleanup_old_backups self dest = (d, l, r)"
  shows "r = PNone \<and> mset d \<subseteq># mset dest
   \<and> mset (map d_name dest) = mset (map d_name d) + mset (deleted_names l)
   \<and> set (deleted_names l) \<subseteq> set (glob_backups dest)
   \<and> int (length (deleted_names l))
       \<le> max 0 (int (length (glob_backups dest)) - config_get (cfg_max_backups (config self)) 5)
   \<and> (config_get (cfg_max_backups (config self)) 5 \<le> 0 \<longrightarrow> d = dest \<and> l = [])"
proof -
  let ?m = "config_get (cfg_max_backups (config self)) 5"
  show ?thesis
  proof (cases "?m \<le> 0")
    case True
    with c show ?thesis by (auto simp: cleanup_old_backups_def)
  next
    case pos: False
    show ?thesis
    proof (cases "stat_keys dest (glob_backups dest)")
      case (Inl e)
      with c pos show ?thesis by (auto simp: cleanup_old_backups_def)
    next
      case (Inr ks)
      have names: "map snd ks = glob_backups dest"
        using Inr by (rule stat_keys_names)
      have ms: "mset (sort_reverse ks) = mset (glob_backups dest)"
        using names by (simp add: mset_sort_reverse)
      then have len: "length (sort_reverse ks) = length (glob_backups dest)"
        by (metis size_mset)
      show ?thesis
      proof (cases "int (length (sort_reverse ks)) > ?m")
        case False
        with c pos Inr show ?thesis by (auto simp: cleanup_old_backups_def Let_def)
      next
        case True
        obtain d1 l1 where u: "unlink_loop (drop (nat ?m) (sort_reverse ks)) dest = (d1, l1)"
          by (cases "unlink_loop (drop (nat ?m) (sort_reverse ks)) dest")
        with c pos Inr True have dl: "d = d1" "l = l1" "r = PNone"
          by (simp_all add: cleanup_old_backups_def Let_def)
        from unlink_loop_effect[OF u] have eff: "mset d1 \<subseteq># mset dest"
          "mset (map d_name dest) = mset (map d_name d1) + mset (deleted_names l1)"
          "mset (deleted_names l1) \<subseteq># mset (drop (nat ?m) (sort_reverse ks))"
          by simp_all
        from eff(3) have "set (deleted_names l1) \<subseteq> set (drop (nat ?m) (sort_reverse ks))"
          by (metis set_mset_mono set_mset_mset)
        also have "\<dots> \<subseteq> set (sort_reverse ks)"
          by (rule set_drop_subset)
        also have "\<dots> = set (glob_backups dest)"
          using ms by (metis set_mset_mset)
        finally have sub: "set (deleted_names l1) \<subseteq> set (glob_backups dest)" .
        from eff(3) have "length (deleted_names l1) \<le> length (drop (nat ?m) (sort_reverse ks))"
          by (metis size_mset size_mset_mono)
        with len have "int (length (deleted_names l1))
            \<le> max 0 (int (length (glob_backups dest)) - ?m)"
          using pos by simp
        with dl eff sub pos show ?thesis by simp
      qed
    qed
  qed
qed

lemma insort_key_map:
  "insort_key f (g x) (map g xs) = map g (insort_key (\<lambda>a. f (g a)) x xs)"
  by (induction xs) simp_all

lemma sort_key_map: "sort_key f (map g xs) = map g (sort_key (\<lambda>a. f (g a)) xs)"
  by (induction xs) (simp_all add: insort_key_map)

lemma stat_path_entry:
  "distinct (map d_name dest) \<Longrightarrow> e \<in> set dest \<Longrightarrow> stat_path (d_name e) dest = d_stat e"
  by (induction dest) (auto simp: rev_image_eqI)

lemma stat_keys_entries:
  "distinct (map d_name dest) \<Longrightarrow> set M \<subseteq> set dest \<Longrightarrow>
   \<forall>e \<in> set M. \<exists>st. d_stat e = Inr st \<Longrightarrow>
   stat_keys dest (map d_name M) = Inr (map (\<lambda>e. (d_mtime e, d_name e)) M)"
proof (induction M)
  case Nil
  then show ?case by simp
next
  case (Cons e M)
  from Cons.prems have "stat_path (d_name e) dest = d_stat e"
    by (simp add: stat_path_entry)
  moreover from Cons.prems obtain st where "d_stat e = Inr st" by auto
  moreover from Cons have "stat_keys dest (map d_name M) = Inr (map (\<lambda>e. (d_mtime e, d_name e)) M)"
    by simp
  ultimately show ?case by (simp add: d_mtime_def)
qed

lemma unlink_ok:
  "distinct (map d_name dest) \<Longrightarrow> e \<in> set dest \<Longrightarrow> d_unlink e = None \<Longrightarrow>
   unlink (d_name e) dest = Inr (filter (\<lambda>x. d_name x \<noteq> d_name e) dest)"
proof (induction dest)
  case Nil
  then show ?case by simp
next
  case (Cons x xs)
  show ?case
  proof (cases "d_name x = d_name e")
    case True
    with Cons.prems have xe: "x = e"
      by (auto simp: rev_image_eqI)
    from Cons.prems True have "\<forall>y \<in> set xs. d_name y \<noteq> d_name e"
      by (auto simp: rev_image_eqI)
    then have "filter (\<lambda>y. d_name y \<noteq> d_name e) xs = xs"
      by (simp)
    with True xe Cons.prems show ?thesis by simp
  next
    case False
    with Cons.prems have "e \<in> set xs" by auto
    with Cons False show ?thesis by simp
  qed
qed

lemma unlink_loop_ok:
  "distinct (map d_name dest) \<Longrightarrow> distinct D \<Longrightarrow> set D \<subseteq> set dest \<Longrightarrow>
   \<forall>e \<in> set D. d_unlink e = None \<Longrightarrow>
   unlink_loop (map d_name D) dest =
     (filter (\<lambda>x. d_name x \<notin> set (map d_name D)) dest, map LogDeleted (map d_name D))"
proof (induction D arbitrary: dest)
  case Nil
  then show ?case by simp
next
  case (Cons e D)
  let ?dest' = "filter (\<lambda>x. d_name x \<noteq> d_name e) dest"
  from Cons.prems have u: "unlink (d_name e) dest = Inr ?dest'"
    by (simp add: unlink_ok)
  have d1: "distinct (map d_name ?dest')"
    using Cons.prems(1) by (simp add: distinct_map_filter)
  have inj: "inj_on d_name (set dest)"
    using Cons.prems(1) by (simp add: distinct_map)
  have "\<forall>y \<in> set D. d_name y \<noteq> d_name e"
  proof
    fix y assume y: "y \<in> set D"
    with Cons.prems have "y \<noteq> e" "y \<in> set dest" "e \<in> set dest" by auto
    with inj show "d_name y \<noteq> d_name e" by (auto dest: inj_onD)
  qed
  with Cons.prems have sub: "set D \<subseteq> set ?dest'" by auto
  from Cons.prems have "distinct D" "\<forall>e \<in> set D. d_unlink e = None" by simp_all
  from Cons.IH[OF d1 this(1) sub this(2)]
  have "unlink_loop (map d_name D) ?dest' =
     (filter (\<lambda>x. d_name x \<notin> set (map d_name D)) ?dest', map LogDeleted (map d_name D))" .
  moreover have "filter (\<lambda>x. d_name x \<notin> set (map d_name D)) ?dest'
      = filter (\<lambda>x. d_name x \<notin> set (map d_name (e # D))) dest"
    by (auto intro: filter_cong)
  ultimately show ?case using u by simp
qed

lemma deleted_names_map [simp]: "deleted_names (map LogDeleted ns) = ns"
  by (induction ns) simp_all

lemma cleanup_no_fault:
  fixes self dest
  defines "M \<equiv> filter (\<lambda>e. fnmatch_backup (d_name e)) dest"
  defines "S \<equiv> rev (sort_key d_mtime (rev M))"
  defines "k \<equiv> config_get (cfg_max_backups (config self)) 5"
  assumes names: "distinct (map d_name dest)"
    and ok: "\<forall>e \<in> set dest. fnmatch_backup (d_name e) \<longrightarrow>
        (\<exists>st. d_stat e = Inr st) \<and> d_unlink e = None"
    and k: "0 < k" "k < int (length (glob_backups dest))"
  shows "cleanup_old_backups self dest =
     (filter (\<lambda>x. d_name x \<notin> set (map d_name (drop (nat k) S))) dest,
      map LogDeleted (map d_name (drop (nat k) S)), PNone)"
proof -
  have g: "glob_backups dest = map d_name M"
    by (simp add: glob_backups_def M_def filter_map comp_def)
  have Msub: "set M \<subseteq> set dest" by (auto simp: M_def)
  have Mok: "\<forall>e \<in> set M. (\<exists>st. d_stat e = Inr st) \<and> d_unlink e = None"
    using ok by (auto simp: M_def)
  have sk: "stat_keys dest (glob_backups dest) = Inr (map (\<lambda>e. (d_mtime e, d_name e)) M)"
    unfolding g using names Msub Mok by (intro stat_keys_entries) auto
  have "sort_key fst (rev (map (\<lambda>e. (d_mtime e, d_name e)) M))
      = map (\<lambda>e. (d_mtime e, d_name e)) (sort_key d_mtime (rev M))"
    by (simp add: rev_map sort_key_map)
  then have sr: "sort_reverse (map (\<lambda>e. (d_mtime e, d_name e)) M) = map d_name S"
    by (simp add: sort_reverse_def S_def rev_map comp_def)
  have lenS: "length S = length (glob_backups dest)"
    by (simp add: S_def g)
  have dM: "distinct M"
    using names by (simp add: M_def distinct_map)
  have dS: "distinct S" using dM by (simp add: S_def)
  have setS: "set S = set M" by (simp add: S_def)
  have D1: "distinct (drop (nat k) S)" using dS by simp
  have D2: "set (drop (nat k) S) \<subseteq> set dest"
    using setS Msub set_drop_subset[of "nat k" S] by blast
  have D3: "\<forall>e \<in> set (drop (nat k) S). d_unlink e = None"
    using setS Mok set_drop_subset[of "nat k" S] by blast
  have ul: "unlink_loop (map d_name (drop (nat k) S)) dest =
     (filter (\<lambda>x. d_name x \<notin> set (map d_name (drop (nat k) S))) dest,
      map LogDeleted (map d_name (drop (nat k) S)))"
    using names D1 D2 D3 by (rule unlink_loop_ok)
  show ?thesis
    using k sk sr lenS ul
    by (simp add: cleanup_old_backups_def Let_def k_def[symmetric] drop_map)
qed

lemma cleanup_keeps_newest:
  fixes self dest
  defines "k \<equiv> config_get (cfg_max_backups (config self)) 5"
  assumes names: "distinct (map d_name dest)"
    and ok: "\<forall>e \<in> set dest. fnmatch_backup (d_name e) \<longrightarrow>
        (\<exists>st. d_stat e = Inr st) \<and> d_unlink e = None"
    and times: "distinct (map d_mtime (filter (\<lambda>e. fnmatch_backup (d_name e)) dest))"
    and k: "0 < k" "k < int (length (glob_backups dest))"
    and c: "cleanup_old_backups self dest = (d, l, r)"
  shows "length (deleted_names l) = length (glob_backups dest) - nat k
    \<and> distinct (deleted_names l)
    \<and> set (deleted_names l) \<subseteq> set (glob_backups dest)
    \<and> d = filter (\<lambda>x. d_name x \<notin> set (deleted_names l)) dest
    \<and> length (glob_backups d) = nat k
    \<and> (\<forall>kept \<in> set d. \<forall>del \<in> set dest.
          fnmatch_backup (d_name kept) \<and> d_name del \<in> set (deleted_names l)
          \<longrightarrow> d_mtime del < d_mtime kept)"
proof -
  define M where "M = filter (\<lambda>e. fnmatch_backup (d_name e)) dest"
  define S where "S = rev (sort_key d_mtime (rev M))"
  define D where "D = drop (nat k) S"
  have g: "glob_backups dest = map d_name M"
    by (simp add: glob_backups_def M_def filter_map comp_def)
  from cleanup_no_fault[OF names ok k[unfolded k_def]] c
  have d: "d = filter (\<lambda>x. d_name x \<notin> set (map d_name D)) dest"
    and l: "l = map LogDeleted (map d_name D)"
    by (simp_all add: D_def S_def M_def k_def)
  have dn: "deleted_names l = map d_name D"
    unfolding l by (rule deleted_names_map)
  have inj: "inj_on d_name (set dest)"
    using names by (simp add: distinct_map)
  have Msub: "set M \<subseteq> set dest" by (auto simp: M_def)
  have dM: "distinct M" using names by (simp add: M_def distinct_map)
  have setS: "set S = set M" by (simp add: S_def)
  have dS: "distinct S" using dM by (simp add: S_def)
  have lenS: "length S = length M" by (simp add: S_def)
  have Dsub: "set D \<subseteq> set M"
    using setS set_drop_subset[of "nat k" S] by (auto simp: D_def)
  have dD: "distinct D" using dS by (simp add: D_def)
  have lenD: "length D = length M - nat k" by (simp add: D_def lenS)
  have c1: "length (deleted_names l) = length (glob_backups dest) - nat k"
    by (simp add: dn lenD g)
  have c2: "distinct (deleted_names l)"
    unfolding dn using dD Dsub Msub inj by (auto simp: distinct_map intro: inj_on_subset)
  have c3: "set (deleted_names l) \<subseteq> set (glob_backups dest)"
    unfolding dn g using Dsub by auto
  have c4: "d = filter (\<lambda>x. d_name x \<notin> set (deleted_names l)) dest"
    by (simp add: d dn)
  have inD: "d_name x \<in> set (map d_name D) \<longleftrightarrow> x \<in> set D" if "x \<in> set dest" for x
  proof
    assume "d_name x \<in> set (map d_name D)"
    then obtain y where y: "y \<in> set D" "d_name y = d_name x" by auto
    with Dsub Msub have "y \<in> set dest" by auto
    with inj that y(2) have "y = x" by (auto dest: inj_onD)
    with y show "x \<in> set D" by simp
  next
    assume "x \<in> set D" then show "d_name x \<in> set (map d_name D)" by simp
  qed
  have "glob_backups d = map d_name (filter (\<lambda>x. d_name x \<notin> set (map d_name D)) M)"
    by (simp add: glob_backups_def d M_def filter_map comp_def conj_commute)
  also have "filter (\<lambda>x. d_name x \<notin> set (map d_name D)) M = filter (\<lambda>x. x \<notin> set D) M"
    using inD Msub by (intro filter_cong) auto
  finally have gd: "glob_backups d = map d_name (filter (\<lambda>x. x \<notin> set D) M)" .
  have "length (filter (\<lambda>x. x \<in> set D) M) = card ({x. x \<in> set D} \<inter> set M)"
    using dM by (rule distinct_length_filter)
  also have "{x. x \<in> set D} \<inter> set M = set D" using Dsub by auto
  also have "card (set D) = length D" using dD by (rule distinct_card)
  finally have "length (filter (\<lambda>x. x \<in> set D) M) = length D" .
  moreover have "length (filter (\<lambda>x. x \<in> set D) M) + length (filter (\<lambda>x. x \<notin> set D) M)
      = length M"
    by (rule sum_length_filter_compl)
  ultimately have "length (filter (\<lambda>x. x \<notin> set D) M) = length M - length D"
    by simp
  with lenD k g have c5: "length (glob_backups d) = nat k"
    by (simp add: gd)
  have srt: "sorted_wrt (\<lambda>a b. d_mtime b \<le> d_mtime a) S"
  proof -
    have "sorted (map d_mtime (sort_key d_mtime (rev M)))"
      by (rule sorted_sort_key)
    then have "sorted_wrt (\<lambda>a b. d_mtime a \<le> d_mtime b) (sort_key d_mtime (rev M))"
      by (simp add: sorted_map)
    then show ?thesis
      by (simp add: S_def sorted_wrt_rev)
  qed
  have td: "S = take (nat k) S @ D" by (simp add: D_def)
  have c6: "\<forall>kept \<in> set d. \<forall>del \<in> set dest.
          fnmatch_backup (d_name kept) \<and> d_name del \<in> set (deleted_names l)
          \<longrightarrow> d_mtime del < d_mtime kept"
  proof (intro ballI impI)
    fix kept del
    assume kd: "kept \<in> set d" and deld: "del \<in> set dest"
      and h: "fnmatch_backup (d_name kept) \<and> d_name del \<in> set (deleted_names l)"
    from kd d have kdest: "kept \<in> set dest" and knD: "d_name kept \<notin> set (map d_name D)"
      by auto
    from kdest h have kM: "kept \<in> set M" by (simp add: M_def)
    from knD have "kept \<notin> set D" by auto
    with kM setS td have kT: "kept \<in> set (take (nat k) S)"
      by (metis Un_iff set_append)
    from h deld inD have dD': "del \<in> set D" by (simp add: dn)
    from srt td have "sorted_wrt (\<lambda>a b. d_mtime b \<le> d_mtime a) (take (nat k) S @ D)"
      by simp
    with kT dD' have le: "d_mtime del \<le> d_mtime kept"
      by (auto simp: sorted_wrt_append)
    from dD' Dsub have delM: "del \<in> set M" by auto
    from \<open>kept \<notin> set D\<close> dD' have ne: "kept \<noteq> del" by auto
    have "inj_on d_mtime (set M)"
      using times by (simp add: M_def distinct_map)
    with kM delM ne have "d_mtime del \<noteq> d_mtime kept"
      by (auto dest: inj_onD)
    with le show "d_mtime del < d_mtime kept" by simp
  qed
  from c1 c2 c3 c4 c5 c6 show ?thesis by blast
qed

lemma glob_seven:
  "glob_backups seven_dest =
     [''astrbot_backup_20240103_000000.zip'', ''astrbot_backup_20240101_000000.zip'',
      ''astrbot_backup_20240107_000000.zip'', ''astrbot_backup_20240102_000000.zip'',
      ''astrbot_backup_20240105_000000.zip'', ''astrbot_backup_20240104_000000.zip'',
      ''astrbot_backup_20240106_000000.zip'']"
  by (simp add: glob_backups_def seven_dest_def backup_entry_def fnmatch_backup_def
      startswith_def endswith_def)

lemma cleanup_seven:
  "cleanup_old_backups demo_plugin seven_dest =
     (five_dest,
      [LogDeleted ''astrbot_backup_20240102_000000.zip'',
       LogDeleted ''astrbot_backup_20240101_000000.zip''], PNone)"
proof -
  have k: "stat_keys seven_dest (glob_backups seven_dest) =
     Inr [(300, ''astrbot_backup_20240103_000000.zip''),
          (100, ''astrbot_backup_20240101_000000.zip''),
          (700, ''astrbot_backup_20240107_000000.zip''),
          (200, ''astrbot_backup_20240102_000000.zip''),
          (500, ''astrbot_backup_20240105_000000.zip''),
          (400, ''astrbot_backup_20240104_000000.zip''),
          (600, ''astrbot_backup_20240106_000000.zip'')]"
    by (simp add: glob_seven) (simp add: seven_dest_def backup_entry_def)
  have s: "sort_reverse
        [(300, ''astrbot_backup_20240103_000000.zip''),
          (100, ''astrbot_backup_20240101_000000.zip''),
          (700, ''astrbot_backup_20240107_000000.zip''),
          (200, ''astrbot_backup_20240102_000000.zip''),
          (500, ''astrbot_backup_20240105_000000.zip''),
          (400, ''astrbot_backup_20240104_000000.zip''),
          (600::int, ''astrbot_backup_20240106_000000.zip'')] =
       [''astrbot_backup_20240107_000000.zip'', ''astrbot_backup_20240106_000000.zip'',
        ''astrbot_backup_20240105_000000.zip'', ''astrbot_backup_20240104_000000.zip'',
        ''astrbot_backup_20240103_000000.zip'', ''astrbot_backup_20240102_000000.zip'',
        ''astrbot_backup_20240101_000000.zip'']"
    by (simp add: sort_reverse_def)
  have u: "unlink_loop [''astrbot_backup_20240102_000000.zip'',
        ''astrbot_backup_20240101_000000.zip''] seven_dest =
      (five_dest, [LogDeleted ''astrbot_backup_20240102_000000.zip'',
       LogDeleted ''astrbot_backup_20240101_000000.zip''])"
    by (simp add: seven_dest_def five_dest_def backup_entry_def)
  show ?thesis
    by (simp add: cleanup_old_backups_def demo_plugin_def config_get_def k s u Let_def
        del: unlink_loop.simps)
qed

lemma seven_names: "distinct (map d_name seven_dest)"
  by (simp add: seven_dest_def backup_entry_def)

lemma seven_ok:
  "\<forall>e \<in> set seven_dest. fnmatch_backup (d_name e) \<longrightarrow>
     (\<exists>st. d_stat e = Inr st) \<and> d_unlink e = None"
  by (simp add: seven_dest_def backup_entry_def)

lemma seven_times:
  "distinct (map d_mtime (filter (\<lambda>e. fnmatch_backup (d_name e)) seven_dest))"
  by (simp add: seven_dest_def backup_entry_def d_mtime_def fnmatch_backup_def
      startswith_def endswith_def)

lemma glob_five: "length (glob_backups five_dest) = 5"
  by (simp add: glob_backups_def five_dest_def backup_entry_def fnmatch_backup_def
      startswith_def endswith_def)

lemma demo_keep: "config_get (cfg_max_backups (config demo_plugin)) 5 = 5"
  by (simp add: demo_plugin_def config_get_def)

text \<open>
  Claim C3, as amended. In a directory whose names are distinct, where every file matching
  the naming convention can be statted and unlinked and the matching files have distinct
  modification times, a cap \<open>K\<close> with \<open>0 < K < N\<close> for the \<open>N\<close> matching files makes
  pruning delete exactly \<open>N - K\<close> files, all of them matching; exactly \<open>K\<close> matching files
  remain, and each of them is newer than every deleted one.
\<close>

theorem prune_keeps_newest:
  assumes "distinct (map d_name dest)"
    and "\<forall>e \<in> set dest. fnmatch_backup (d_name e) \<longrightarrow>
        (\<exists>st. d_stat e = Inr st) \<and> d_unlink e = None"
    and "distinct (map d_mtime (filter (\<lambda>e. fnmatch_backup (d_name e)) dest))"
    and "0 < config_get (cfg_max_backups (config self)) 5"
    and "config_get (cfg_max_backups (config self)) 5 < int (length (glob_backups dest))"
    and "cleanup_old_backups self dest = (d, l, r)"
  shows "length (deleted_names l)
        = length (glob_backups dest) - nat (config_get (cfg_max_backups (config self)) 5)
    \<and> distinct (deleted_names l)
    \<and> set (deleted_names l) \<subseteq> set (glob_backups dest)
    \<and> d = filter (\<lambda>x. d_name x \<notin> set (deleted_names l)) dest
    \<and> length (glob_backups d) = nat (config_get (cfg_max_backups (config self)) 5)
    \<and> (\<forall>kept \<in> set d. \<forall>del \<in> set dest.
          fnmatch_backup (d_name kept) \<and> d_name del \<in> set (deleted_names l)
          \<longrightarrow> d_mtime del < d_mtime kept)"
  using assms by (rule cleanup_keeps_newest)

theorem prune_keeps_newest_witness:
  "distinct (map d_name seven_dest)
   \<and> distinct (map d_mtime (filter (\<lambda>e. fnmatch_backup (d_name e)) seven_dest))
   \<and> config_get (cfg_max_backups (config demo_plugin)) 5 = 5
   \<and> length (glob_backups seven_dest) = 7
   \<and> cleanup_old_backups demo_plugin seven_dest =
       (five_dest, [LogDeleted ''astrbot_backup_20240102_000000.zip'',
          LogDeleted ''astrbot_backup_20240101_000000.zip''], PNone)
   \<and> length (deleted_names [LogDeleted ''astrbot_backup_20240102_000000.zip'',
          LogDeleted ''astrbot_backup_20240101_000000.zip'']) = 7 - 5
   \<and> length (glob_backups five_dest) = 5
   \<and> d_mtime (backup_entry ''astrbot_backup_20240102_000000.zip'' 200)
       < d_mtime (backup_entry ''astrbot_backup_20240103_000000.zip'' 300)"
proof -
  have k1: "0 < config_get (cfg_max_backups (config demo_plugin)) 5"
    by (simp add: demo_keep)
  have n: "length (glob_backups seven_dest) = 7"
    by (simp add: glob_seven)
  have k2: "config_get (cfg_max_backups (config demo_plugin)) 5
      < int (length (glob_backups seven_dest))"
    by (simp add: demo_keep n)
  note t = prune_keeps_newest[OF seven_names seven_ok seven_times k1 k2 cleanup_seven]
  from t have a: "length (deleted_names [LogDeleted ''astrbot_backup_20240102_000000.zip'',
          LogDeleted ''astrbot_backup_20240101_000000.zip''])
        = length (glob_backups seven_dest) - nat (config_get (cfg_max_backups (config demo_plugin)) 5)"
    by blast
  from t have b: "length (glob_backups five_dest)
      = nat (config_get (cfg_max_backups (config demo_plugin)) 5)"
    by blast
  have m1: "backup_entry ''astrbot_backup_20240103_000000.zip'' 300 \<in> set five_dest"
    by (simp add: five_dest_def)
  have m2: "backup_entry ''astrbot_backup_20240102_000000.zip'' 200 \<in> set seven_dest"
    by (simp add: seven_dest_def)
  have m3: "fnmatch_backup (d_name (backup_entry ''astrbot_backup_20240103_000000.zip'' 300))
     \<and> d_name (backup_entry ''astrbot_backup_20240102_000000.zip'' 200)
        \<in> set (deleted_names [LogDeleted ''astrbot_backup_20240102_000000.zip'',
          LogDeleted ''astrbot_backup_20240101_000000.zip''])"
    by (simp add: backup_entry_def fnmatch_backup_def startswith_def endswith_def)
  from t m1 m2 m3
  have c: "d_mtime (backup_entry ''astrbot_backup_20240102_000000.zip'' 200)
       < d_mtime (backup_entry ''astrbot_backup_20240103_000000.zip'' 300)"
    by blast
  from a b c n show ?thesis
    using seven_names seven_times demo_keep cleanup_seven by simp
qed

lemma cleanup_locked:
  "cleanup_old_backups (keep_plugin 2) locked_dest =
     (locked_dest,
      [LogDeleteFailed ''astrbot_backup_20240101_000000.zip'' (OSError ''Permission denied'')],
      PNone)"
proof -
  have g: "glob_backups locked_dest =
     [''astrbot_backup_20240102_000000.zip'', ''astrbot_backup_20240101_000000.zip'',
      ''astrbot_backup_20240103_000000.zip'']"
    by (simp add: glob_backups_def locked_dest_def backup_entry_def fnmatch_backup_def
      startswith_def endswith_def)
  have k: "stat_keys locked_dest (glob_backups locked_dest) =
     Inr [(200, ''astrbot_backup_20240102_000000.zip''),
          (100, ''astrbot_backup_20240101_000000.zip''),
          (300, ''astrbot_backup_20240103_000000.zip'')]"
    by (simp add: g) (simp add: locked_dest_def backup_entry_def)
  have s: "sort_reverse
        [(200, ''astrbot_backup_20240102_000000.zip''),
          (100, ''astrbot_backup_20240101_000000.zip''),
          (300::int, ''astrbot_backup_20240103_000000.zip'')] =
       [''astrbot_backup_20240103_000000.zip'', ''astrbot_backup_20240102_000000.zip'',
        ''astrbot_backup_20240101_000000.zip'']"
    by (simp add: sort_reverse_def)
  have u: "unlink_loop [''astrbot_backup_20240101_000000.zip''] locked_dest =
      (locked_dest,
       [LogDeleteFailed ''astrbot_backup_20240101_000000.zip'' (OSError ''Permission denied'')])"
    by (simp add: locked_dest_def backup_entry_def)
  show ?thesis
    by (simp add: cleanup_old_backups_def keep_plugin_def config_get_def k s u Let_def
        del: unlink_loop.simps)
qed

text \<open>
  Claim C3 as stated fails when a deletion fails: with three archives, a cap of two and
  the oldest archive locked, nothing is deleted and three archives remain.
\<close>

theorem prune_locked_counterexample:
  "distinct (map d_name locked_dest)
   \<and> distinct (map d_mtime locked_dest)
   \<and> length (glob_backups locked_dest) = 3
   \<and> config_get (cfg_max_backups (config (keep_plugin 2))) 5 = 2
   \<and> cleanup_old_backups (keep_plugin 2) locked_dest =
       (locked_dest,
        [LogDeleteFailed ''astrbot_backup_20240101_000000.zip'' (OSError ''Permission denied'')],
        PNone)
   \<and> length (deleted_names
        [LogDeleteFailed ''astrbot_backup_20240101_000000.zip'' (OSError ''Permission denied'')])
       \<noteq> 3 - 2
   \<and> length (glob_backups (fst (cleanup_old_backups (keep_plugin 2) locked_dest))) \<noteq> 2"
proof -
  have g: "length (glob_backups locked_dest) = 3"
    by (simp add: glob_backups_def locked_dest_def backup_entry_def fnmatch_backup_def
      startswith_def endswith_def)
  have d: "distinct (map d_name locked_dest)" "distinct (map d_mtime locked_dest)"
    by (simp_all add: locked_dest_def backup_entry_def d_mtime_def)
  have k: "config_get (cfg_max_backups (config (keep_plugin 2))) 5 = 2"
    by (simp add: keep_plugin_def config_get_def)
  show ?thesis
    using g d k by (simp add: cleanup_locked)
qed

text \<open>
  Claim C4. Pruning removes entries only (what is left is part of what was there), the
  names it removes are exactly the names it logs as deleted, each of them matches the
  naming convention, there are at most \<open>count - max_backups\<close> of them (none when that is
  negative), and with \<open>max_backups \<le> 0\<close> the directory is left as it was.
\<close>

theorem prune_bounds:
  assumes "cleanup_old_backups self dest = (d, l, r)"
  shows "mset d \<subseteq># mset dest
    \<and> mset (map d_name dest) = mset (map d_name d) + mset (deleted_names l)
    \<and> (\<forall>n \<in> set (deleted_names l). fnmatch_backup n)
    \<and> int (length (deleted_names l))
        \<le> max 0 (int (length (glob_backups dest)) - config_get (cfg_max_backups (config self)) 5)
    \<and> (config_get (cfg_max_backups (config self)) 5 \<le> 0 \<longrightarrow> d = dest \<and> l = [])"
proof -
  note e = cleanup_effect[OF assms]
  from e have "set (deleted_names l) \<subseteq> set (glob_backups dest)" by blast
  then have "\<forall>n \<in> set (deleted_names l). fnmatch_backup n"
    using glob_backups_match by blast
  with e show ?thesis by blast
qed

lemma cleanup_disabled:
  "cleanup_old_backups (keep_plugin 0) seven_dest = (seven_dest, [], PNone)"
  by (simp add: cleanup_old_backups_def keep_plugin_def config_get_def)

theorem prune_bounds_witness:
  "cleanup_old_backups demo_plugin seven_dest =
       (five_dest, [LogDeleted ''astrbot_backup_20240102_000000.zip'',
          LogDeleted ''astrbot_backup_20240101_000000.zip''], PNone)
   \<and> fnmatch_backup ''astrbot_backup_20240102_000000.zip''
   \<and> fnmatch_backup ''astrbot_backup_20240101_000000.zip''
   \<and> int (length (deleted_names [LogDeleted ''astrbot_backup_20240102_000000.zip'',
          LogDeleted ''astrbot_backup_20240101_000000.zip'']))
        \<le> max 0 (int (length (glob_backups seven_dest)) - 5)
   \<and> mset five_dest \<subseteq># mset seven_dest
   \<and> config_get (cfg_max_backups (config (keep_plugin 0))) 5 \<le> 0
   \<and> cleanup_old_backups (keep_plugin 0) seven_dest = (seven_dest, [], PNone)
   \<and> fst (cleanup_old_backups (keep_plugin 0) seven_dest) = seven_dest"
proof -
  note t = prune_bounds[OF cleanup_seven]
  from t have a: "fnmatch_backup ''astrbot_backup_20240102_000000.zip''
      \<and> fnmatch_backup ''astrbot_backup_20240101_000000.zip''"
    by simp
  from t have b: "int (length (deleted_names [LogDeleted ''astrbot_backup_20240102_000000.zip'',
          LogDeleted ''astrbot_backup_20240101_000000.zip'']))
        \<le> max 0 (int (length (glob_backups seven_dest)) - 5)"
    by (simp only: demo_keep)
  from t have c: "mset five_dest \<subseteq># mset seven_dest" by blast
  have k: "config_get (cfg_max_backups (config (keep_plugin 0))) 5 \<le> 0"
    by (simp add: keep_plugin_def config_get_def)
  note t0 = prune_bounds[OF cleanup_disabled]
  from t0 k have e: "fst (cleanup_old_backups (keep_plugin 0) seven_dest) = seven_dest"
    by (simp add: cleanup_disabled)
  from a b c k e show ?thesis
    using cleanup_seven cleanup_disabled by blast
qed

text \<open>
  Claim C7, as amended. Pruning returns \<open>None\<close>; the names it deleted are only logged, in
  the order of deletion. With seven matching files of distinct modification times, all of
  which can be statted and unlinked, and a cap of five, it deletes exactly two files, five
  matching files remain, and each of them is newer than both deleted ones.
\<close>

theorem prune_returns_none:
  assumes "cleanup_old_backups self dest = (d, l, r)"
  shows "r = PNone
    \<and> (distinct (map d_name dest)
        \<and> (\<forall>e \<in> set dest. fnmatch_backup (d_name e) \<longrightarrow>
              (\<exists>st. d_stat e = Inr st) \<and> d_unlink e = None)
        \<and> distinct (map d_mtime (filter (\<lambda>e. fnmatch_backup (d_name e)) dest))
        \<and> config_get (cfg_max_backups (config self)) 5 = 5
        \<and> length (glob_backups dest) = 7
       \<longrightarrow> length (deleted_names l) = 2
         \<and> d = filter (\<lambda>x. d_name x \<notin> set (deleted_names l)) dest
         \<and> length (glob_backups d) = 5
         \<and> (\<forall>kept \<in> set d. \<forall>del \<in> set dest.
              fnmatch_backup (d_name kept) \<and> d_name del \<in> set (deleted_names l)
              \<longrightarrow> d_mtime del < d_mtime kept))"
proof (intro conjI impI)
  show "r = PNone" using cleanup_effect[OF assms] by blast
next
  assume h: "distinct (map d_name dest)
        \<and> (\<forall>e \<in> set dest. fnmatch_backup (d_name e) \<longrightarrow>
              (\<exists>st. d_stat e = Inr st) \<and> d_unlink e = None)
        \<and> distinct (map d_mtime (filter (\<lambda>e. fnmatch_backup (d_name e)) dest))
        \<and> config_get (cfg_max_backups (config self)) 5 = 5
        \<and> length (glob_backups dest) = 7"
  then have k: "0 < config_get (cfg_max_backups (config self)) 5"
      "config_get (cfg_max_backups (config self)) 5 < int (length (glob_backups dest))"
    by simp_all
  from h have h1: "distinct (map d_name dest)"
    and h2: "\<forall>e \<in> set dest. fnmatch_backup (d_name e) \<longrightarrow>
              (\<exists>st. d_stat e = Inr st) \<and> d_unlink e = None"
    and h3: "distinct (map d_mtime (filter (\<lambda>e. fnmatch_backup (d_name e)) dest))"
    by blast+
  note t = cleanup_keeps_newest[OF h1 h2 h3 k assms]
  from t h show "length (deleted_names l) = 2" by simp
  from t show "d = filter (\<lambda>x. d_name x \<notin> set (deleted_names l)) dest" by blast
  from t have "length (glob_backups d) = nat (config_get (cfg_max_backups (config self)) 5)"
    by blast
  with h show "length (glob_backups d) = 5" by simp
  from t show "\<forall>kept \<in> set d. \<forall>del \<in> set dest.
              fnmatch_backup (d_name kept) \<and> d_name del \<in> set (deleted_names l)
              \<longrightarrow> d_mtime del < d_mtime kept" by blast
qed

theorem prune_returns_none_witness:
  "cleanup_old_backups demo_plugin seven_dest =
       (five_dest, [LogDeleted ''astrbot_backup_20240102_000000.zip'',
          LogDeleted ''astrbot_backup_20240101_000000.zip''], PNone)
   \<and> distinct (map d_name seven_dest)
   \<and> distinct (map d_mtime (filter (\<lambda>e. fnmatch_backup (d_name e)) seven_dest))
   \<and> config_get (cfg_max_backups (config demo_plugin)) 5 = 5
   \<and> length (glob_backups seven_dest) = 7
   \<and> length (deleted_names [LogDeleted ''astrbot_backup_20240102_000000.zip'',
          LogDeleted ''astrbot_backup_20240101_000000.zip'']) = 2
   \<and> length (glob_backups five_dest) = 5"
proof -
  have n: "length (glob_backups seven_dest) = 7"
    by (simp add: glob_seven)
  note t = prune_returns_none[OF cleanup_seven]
  from t seven_names seven_ok seven_times demo_keep n
  have "length (deleted_names [LogDeleted ''astrbot_backup_20240102_000000.zip'',
          LogDeleted ''astrbot_backup_20240101_000000.zip'']) = 2
     \<and> length (glob_backups five_dest) = 5"
    by blast
  with n show ?thesis
    using seven_names seven_times demo_keep cleanup_seven by blast
qed

text \<open>
  Claim C7 as stated fails: in the scenario of the specification the two oldest archives
  are deleted, and the value returned is \<open>None\<close>, not the list of their paths.
\<close>

theorem prune_returns_paths_counterexample:
  "snd (snd (cleanup_old_backups demo_plugin seven_dest)) = PNone
   \<and> deleted_names (fst (snd (cleanup_old_backups demo_plugin seven_dest)))
       = [''astrbot_backup_20240102_000000.zip'', ''astrbot_backup_20240101_000000.zip'']
   \<and> snd (snd (cleanup_old_backups demo_plugin seven_dest))
       \<noteq> PList [PStr ''astrbot_backup_20240102_000000.zip'',
                 PStr ''astrbot_backup_20240101_000000.zip'']"
  by (simp add: cleanup_seven)

section \<open>Properties of the backup\<close>

lemma put_entry_twice:
  "d_name e = d_name e' \<Longrightarrow> put_entry e (put_entry e' xs) = put_entry e xs"
  by (induction xs) auto

lemma stat_path_put_entry: "stat_path (d_name e) (put_entry e xs) = d_stat e"
  by (induction xs) auto

lemma names_put_entry:
  "set (map d_name (put_entry e xs)) = insert (d_name e) (set (map d_name xs))"
  by (induction xs) auto

lemma length_put_entry: "length xs \<le> length (put_entry e xs)"
  by (induction xs) auto

lemma others_put_entry: "x \<in> set xs \<Longrightarrow> d_name x \<noteq> d_name e \<Longrightarrow> x \<in> set (put_entry e xs)"
  by (induction xs) auto

lemma build_archive_dest [simp]:
  "build_archive self ev (w\<lparr>w_dest := d\<rparr>) = build_archive self ev w"
  by (simp add: build_archive_def)

lemma create_backup_mkdir:
  "e_mkdir_fault ev = Some e \<Longrightarrow>
   create_backup self ev w = (w, [(''success'', PBool False), (''error'', PStr (str_exn e))])"
  by (simp add: create_backup_def create_backup_body_def)

lemma create_backup_open:
  "e_mkdir_fault ev = None \<Longrightarrow> e_open_fault ev = Some e \<Longrightarrow>
   create_backup self ev w = (w, [(''success'', PBool False), (''error'', PStr (str_exn e))])"
  by (simp add: create_backup_def create_backup_body_def)

lemma d_name_archive [simp]: "d_name (archive_entry ev n z) = n"
  by (simp add: archive_entry_def)

lemma stat_archive [simp]:
  "stat_path n (put_entry (archive_entry ev n z) xs) = e_archive_stat ev"
  using stat_path_put_entry[of "archive_entry ev n z" xs] by (simp add: archive_entry_def)

lemma put_archive_twice [simp]:
  "put_entry (archive_entry ev n z) (put_entry (archive_entry ev n z') xs)
     = put_entry (archive_entry ev n z) xs"
  by (rule put_entry_twice) simp

lemma create_backup_write:
  "e_mkdir_fault ev = None \<Longrightarrow> e_open_fault ev = None \<Longrightarrow>
   build_archive self ev w = (z, Some e) \<Longrightarrow>
   create_backup self ev w =
     (w\<lparr>w_dest := put_entry (archive_entry ev (generate_backup_filename (e_now ev)) z) (w_dest w)\<rparr>,
      [(''success'', PBool False), (''error'', PStr (str_exn e))])"
  by (simp add: create_backup_def create_backup_body_def Let_def)

lemma create_backup_stat:
  "e_mkdir_fault ev = None \<Longrightarrow> e_open_fault ev = None \<Longrightarrow>
   build_archive self ev w = (z, None) \<Longrightarrow> e_archive_stat ev = Inl e \<Longrightarrow>
   create_backup self ev w =
     (w\<lparr>w_dest := put_entry (archive_entry ev (generate_backup_filename (e_now ev)) z) (w_dest w)\<rparr>,
      [(''success'', PBool False), (''error'', PStr (str_exn e))])"
  by (simp add: create_backup_def create_backup_body_def Let_def)

lemma create_backup_success:
  "e_mkdir_fault ev = None \<Longrightarrow> e_open_fault ev = None \<Longrightarrow>
   build_archive self ev w = (z, None) \<Longrightarrow> e_archive_stat ev = Inr st \<Longrightarrow>
   create_backup self ev w =
     (w\<lparr>w_dest := fst (cleanup_old_backups self
          (put_entry (archive_entry ev (generate_backup_filename (e_now ev)) z) (w_dest w)))\<rparr>,
      [(''success'', PBool True),
       (''path'', PStr (str_path (get_backup_path self @ [generate_backup_filename (e_now ev)]))),
       (''size_mb'', PFloat (py_round2 (rat_of_nat (st_size st) / (1024 * 1024)))),
       (''filename'', PStr (generate_backup_filename (e_now ev)))])"
  by (simp add: create_backup_def create_backup_body_def Let_def split: prod.splits)

lemma round_half_even_nonneg: "0 \<le> x \<Longrightarrow> 0 \<le> round_half_even x"
proof -
  assume "0 \<le> x"
  then have "0 \<le> \<lfloor>x\<rfloor>" by simp
  then show ?thesis by (simp add: round_half_even_def Let_def)
qed

lemma py_round2_nonneg: "0 \<le> x \<Longrightarrow> 0 \<le> py_round2 x"
  by (simp add: py_round2_def round_half_even_nonneg)

text \<open>The five ways through the body of \<open>_create_backup\<close>.\<close>

lemma create_backup_cases:
  obtains (mkdir) e where "e_mkdir_fault ev = Some e"
  | (opened) e where "e_mkdir_fault ev = None" "e_open_fault ev = Some e"
  | (writing) z e where "e_mkdir_fault ev = None" "e_open_fault ev = None"
      "build_archive self ev w = (z, Some e)"
  | (statting) z e where "e_mkdir_fault ev = None" "e_open_fault ev = None"
      "build_archive self ev w = (z, None)" "e_archive_stat ev = Inl e"
  | (success) z st where "e_mkdir_fault ev = None" "e_open_fault ev = None"
      "build_archive self ev w = (z, None)" "e_archive_stat ev = Inr st"
proof (cases "e_mkdir_fault ev")
  case (Some e)
  then show ?thesis by (rule mkdir)
next
  case m: None
  show ?thesis
  proof (cases "e_open_fault ev")
    case (Some e)
    with m show ?thesis by (rule opened)
  next
    case op: None
    obtain z err where b: "build_archive self ev w = (z, err)"
      by (cases "build_archive self ev w")
    show ?thesis
    proof (cases err)
      case (Some e)
      with m op b show ?thesis by (auto intro: writing)
    next
      case None
      with m op b show ?thesis
        by (cases "e_archive_stat ev") (auto intro: statting success)
    qed
  qed
qed

lemma demo_filename:
  "generate_backup_filename (e_now demo_env) = ''astrbot_backup_20240309_040506.zip''"
  by (simp add: generate_backup_filename_def strftime_stamp_def dec4_def dec2_def digit_def
        demo_env_def demo_now_def)

lemma busy_walk:
  "os_walk keep_dirs [''/'', ''srv'', ''astrbot''] busy_tree =
     [([''/'', ''srv'', ''astrbot''], [], [''a.txt'', ''b.txt'', ''c.txt''])]"
  by (simp add: busy_tree_def keep_dirs_def Let_def)

lemma busy_build:
  "build_archive demo_plugin (demo_env\<lparr>e_write_fault := vanished\<rparr>) busy_world =
     ([ [''a.txt''] ], Some (OSError ''[Errno 2] No such file or directory''))"
  by (simp add: build_archive_def demo_plugin_def demo_env_def busy_world_def busy_walk
      path_suffix_def rfind_def excluded_suffixes_def startswith_def relative_to_def Let_def
      path_name_def vanished_def)

lemma busy_backup:
  "create_backup demo_plugin (demo_env\<lparr>e_write_fault := vanished\<rparr>) busy_world =
     (busy_world\<lparr>w_dest := seven_dest @ [partial_entry]\<rparr>,
      [(''success'', PBool False),
       (''error'', PStr ''[Errno 2] No such file or directory'')])"
proof -
  have m: "e_mkdir_fault (demo_env\<lparr>e_write_fault := vanished\<rparr>) = None"
    and p: "e_open_fault (demo_env\<lparr>e_write_fault := vanished\<rparr>) = None"
    by (simp_all add: demo_env_def)
  have n: "generate_backup_filename (e_now (demo_env\<lparr>e_write_fault := vanished\<rparr>))
      = ''astrbot_backup_20240309_040506.zip''"
    using demo_filename by simp
  have a: "archive_entry (demo_env\<lparr>e_write_fault := vanished\<rparr>)
      ''astrbot_backup_20240309_040506.zip'' [ [''a.txt''] ] = partial_entry"
    by (simp add: archive_entry_def partial_entry_def demo_env_def)
  have q: "put_entry partial_entry seven_dest = seven_dest @ [partial_entry]"
    by (simp add: seven_dest_def backup_entry_def partial_entry_def)
  show ?thesis
    unfolding create_backup_write[OF m p busy_build] n a
    by (simp add: busy_world_def q)
qed




text \<open>
  Claim C6, as amended. The result of a backup is either \<open>success = True\<close> with the
  archive's path, its size in megabytes rounded to two decimals (a float, not negative)
  and its file name, and no error; or \<open>success = False\<close> with an error message and
  nothing else. The size in bytes is not part of the result.
\<close>

theorem result_shape:
  "(\<exists>p s f. snd (create_backup self ev w) =
        [(''success'', PBool True), (''path'', PStr p), (''size_mb'', PFloat s),
         (''filename'', PStr f)] \<and> 0 \<le> s)
   \<or> (\<exists>m. snd (create_backup self ev w) =
        [(''success'', PBool False), (''error'', PStr m)])"
proof (cases rule: create_backup_cases[where ev = ev and self = self and w = w])
  case (mkdir e)
  then show ?thesis by (simp add: create_backup_mkdir)
next
  case (opened e)
  then show ?thesis by (simp add: create_backup_open)
next
  case (writing z e)
  then show ?thesis by (simp add: create_backup_write)
next
  case (statting z e)
  then show ?thesis by (simp add: create_backup_stat)
next
  case (success z st)
  have "0 \<le> py_round2 (rat_of_nat (st_size st) / (1024 * 1024))"
    by (rule py_round2_nonneg) simp
  with success show ?thesis by (simp add: create_backup_success)
qed

lemma demo_size_mb: "py_round2 (rat_of_nat 1500000 / (1024 * 1024)) = 143 / 100"
proof -
  have f: "\<lfloor>rat_of_nat 1500000 / (1024 * 1024) * 100\<rfloor> = 143"
    by (rule floor_unique) simp_all
  show ?thesis
    unfolding py_round2_def round_half_even_def Let_def f by simp
qed

lemma demo_size_mb': "py_round2 (rat_of_nat 1500001 / (1024 * 1024)) = 143 / 100"
proof -
  have f: "\<lfloor>rat_of_nat 1500001 / (1024 * 1024) * 100\<rfloor> = 143"
    by (rule floor_unique) simp_all
  show ?thesis
    unfolding py_round2_def round_half_even_def Let_def f by simp
qed

lemma demo_backup_path: "str_path (get_backup_path demo_plugin @ [n]) = ''/srv/'' @ n"
  by (simp add: get_backup_path_def demo_plugin_def config_get_def path_parent_def
      str_path_def)

lemma demo_result:
  "snd (create_backup demo_plugin demo_env demo_world) =
     [(''success'', PBool True),
      (''path'', PStr ''/srv/astrbot_backup_20240309_040506.zip''),
      (''size_mb'', PFloat (143 / 100)),
      (''filename'', PStr ''astrbot_backup_20240309_040506.zip'')]"
proof -
  have m: "e_mkdir_fault demo_env = None" "e_open_fault demo_env = None"
    "e_archive_stat demo_env = Inr \<lparr>st_size = 1500000, st_mtime = 1000\<rparr>"
    by (simp_all add: demo_env_def)
  have sz: "st_size \<lparr>st_size = 1500000, st_mtime = 1000\<rparr> = 1500000"
    by simp
  show ?thesis
    unfolding create_backup_success[OF m(1) m(2) demo_build m(3)] sz demo_size_mb
      demo_filename demo_backup_path
    by simp
qed

lemma demo_result':
  "snd (create_backup demo_plugin
          (demo_env\<lparr>e_archive_stat := Inr \<lparr>st_size = 1500001, st_mtime = 1000\<rparr>\<rparr>) demo_world) =
     [(''success'', PBool True),
      (''path'', PStr ''/srv/astrbot_backup_20240309_040506.zip''),
      (''size_mb'', PFloat (143 / 100)),
      (''filename'', PStr ''astrbot_backup_20240309_040506.zip'')]"
proof -
  let ?ev = "demo_env\<lparr>e_archive_stat := Inr \<lparr>st_size = 1500001, st_mtime = 1000\<rparr>\<rparr>"
  have m: "e_mkdir_fault ?ev = None" "e_open_fault ?ev = None"
    "e_archive_stat ?ev = Inr \<lparr>st_size = 1500001, st_mtime = 1000\<rparr>"
    by (simp_all add: demo_env_def)
  have b: "build_archive demo_plugin ?ev demo_world = ([ [''app'', ''main.bin''] ], None)"
    using demo_build by (simp add: build_archive_def demo_env_def)
  have n: "generate_backup_filename (e_now ?ev) = ''astrbot_backup_20240309_040506.zip''"
    using demo_filename by simp
  have sz: "st_size \<lparr>st_size = 1500001, st_mtime = 1000\<rparr> = 1500001"
    by simp
  show ?thesis
    unfolding create_backup_success[OF m(1) m(2) b m(3)] sz demo_size_mb' n demo_backup_path
    by simp
qed

theorem result_shape_witness:
  "snd (create_backup demo_plugin demo_env demo_world) =
     [(''success'', PBool True),
      (''path'', PStr ''/srv/astrbot_backup_20240309_040506.zip''),
      (''size_mb'', PFloat (143 / 100)),
      (''filename'', PStr ''astrbot_backup_20240309_040506.zip'')]
   \<and> (0::rat) \<le> 143 / 100
   \<and> snd (create_backup demo_plugin (demo_env\<lparr>e_write_fault := vanished\<rparr>) busy_world) =
      [(''success'', PBool False),
       (''error'', PStr ''[Errno 2] No such file or directory'')]"
proof -
  note t = result_shape[of demo_plugin demo_env demo_world]
  from t demo_result have "(0::rat) \<le> 143 / 100"
    by simp
  moreover note t' = result_shape[of demo_plugin "demo_env\<lparr>e_write_fault := vanished\<rparr>" busy_world]
  from t' busy_backup
  have "snd (create_backup demo_plugin (demo_env\<lparr>e_write_fault := vanished\<rparr>) busy_world) =
      [(''success'', PBool False),
       (''error'', PStr ''[Errno 2] No such file or directory'')]"
    by simp
  ultimately show ?thesis using demo_result by blast
qed

text \<open>
  Claim C6 as stated fails on the size: archives of 1500000 and of 1500001 bytes give the
  same result, whose size is the float \<open>1.43\<close>, so the result carries no byte size.
\<close>

theorem byte_size_absent_counterexample:
  "snd (create_backup demo_plugin demo_env demo_world) =
     [(''success'', PBool True),
      (''path'', PStr ''/srv/astrbot_backup_20240309_040506.zip''),
      (''size_mb'', PFloat (143 / 100)),
      (''filename'', PStr ''astrbot_backup_20240309_040506.zip'')]
   \<and> e_archive_stat demo_env = Inr \<lparr>st_size = 1500000, st_mtime = 1000\<rparr>
   \<and> snd (create_backup demo_plugin
          (demo_env\<lparr>e_archive_stat := Inr \<lparr>st_size = 1500001, st_mtime = 1000\<rparr>\<rparr>) demo_world)
      = snd (create_backup demo_plugin demo_env demo_world)"
  by (simp add: demo_result demo_result') (simp add: demo_env_def)

text \<open>
  Claim C10. A backup that fails never reaches retention: the backup directory is then
  either as it was, or as it was with the archive of this attempt put in. So every name
  listed before is listed after, the listing is not shorter, and every entry other than
  one bearing the new archive's name is still there unchanged.
\<close>

theorem failure_deletes_nothing:
  assumes "map_of (snd (create_backup self ev w)) ''success'' = Some (PBool False)"
  shows "(w_dest (fst (create_backup self ev w)) = w_dest w
          \<or> (\<exists>z. w_dest (fst (create_backup self ev w)) =
                put_entry (archive_entry ev (generate_backup_filename (e_now ev)) z) (w_dest w)))
    \<and> set (map d_name (w_dest w)) \<subseteq> set (map d_name (w_dest (fst (create_backup self ev w))))
    \<and> length (w_dest w) \<le> length (w_dest (fst (create_backup self ev w)))
    \<and> (\<forall>x \<in> set (w_dest w). d_name x \<noteq> generate_backup_filename (e_now ev)
          \<longrightarrow> x \<in> set (w_dest (fst (create_backup self ev w))))"
proof -
  have alt: "w_dest (fst (create_backup self ev w)) = w_dest w
          \<or> (\<exists>z. w_dest (fst (create_backup self ev w)) =
                put_entry (archive_entry ev (generate_backup_filename (e_now ev)) z) (w_dest w))"
  proof (cases rule: create_backup_cases[where ev = ev and self = self and w = w])
    case (mkdir e)
    then show ?thesis by (simp add: create_backup_mkdir)
  next
    case (opened e)
    then show ?thesis by (simp add: create_backup_open)
  next
    case (writing z e)
    then show ?thesis by (auto simp: create_backup_write)
  next
    case (statting z e)
    then show ?thesis by (auto simp: create_backup_stat)
  next
    case (success z st)
    with assms show ?thesis by (simp add: create_backup_success)
  qed
  then show ?thesis
  proof
    assume "w_dest (fst (create_backup self ev w)) = w_dest w"
    then show ?thesis by simp
  next
    assume "\<exists>z. w_dest (fst (create_backup self ev w)) =
                put_entry (archive_entry ev (generate_backup_filename (e_now ev)) z) (w_dest w)"
    then obtain z where z: "w_dest (fst (create_backup self ev w)) =
                put_entry (archive_entry ev (generate_backup_filename (e_now ev)) z) (w_dest w)"
      by blast
    have "set (map d_name (w_dest w)) \<subseteq> set (map d_name (w_dest (fst (create_backup self ev w))))"
      unfolding z names_put_entry by blast
    moreover have "length (w_dest w) \<le> length (w_dest (fst (create_backup self ev w)))"
      unfolding z by (rule length_put_entry)
    moreover have "\<forall>x \<in> set (w_dest w). d_name x \<noteq> generate_backup_filename (e_now ev)
          \<longrightarrow> x \<in> set (w_dest (fst (create_backup self ev w)))"
      unfolding z by (simp add: others_put_entry)
    ultimately show ?thesis using z by blast
  qed
qed

theorem failure_deletes_nothing_witness:
  "map_of (snd (create_backup demo_plugin (demo_env\<lparr>e_write_fault := vanished\<rparr>) busy_world))
      ''success'' = Some (PBool False)
   \<and> w_dest busy_world = seven_dest
   \<and> length (glob_backups seven_dest) = 7
   \<and> config_get (cfg_max_backups (config demo_plugin)) 5 = 5
   \<and> set (map d_name seven_dest)
       \<subseteq> set (map d_name (w_dest (fst (create_backup demo_plugin
            (demo_env\<lparr>e_write_fault := vanished\<rparr>) busy_world))))
   \<and> length seven_dest \<le> length (w_dest (fst (create_backup demo_plugin
            (demo_env\<lparr>e_write_fault := vanished\<rparr>) busy_world)))"
proof -
  have h: "map_of (snd (create_backup demo_plugin (demo_env\<lparr>e_write_fault := vanished\<rparr>) busy_world))
      ''success'' = Some (PBool False)"
    by (simp add: busy_backup)
  have w: "w_dest busy_world = seven_dest"
    by (simp add: busy_world_def)
  note t = failure_deletes_nothing[OF h, unfolded w]
  from t have "set (map d_name seven_dest)
       \<subseteq> set (map d_name (w_dest (fst (create_backup demo_plugin
            (demo_env\<lparr>e_write_fault := vanished\<rparr>) busy_world))))
   \<and> length seven_dest \<le> length (w_dest (fst (create_backup demo_plugin
            (demo_env\<lparr>e_write_fault := vanished\<rparr>) busy_world)))"
    by blast
  with h w show ?thesis
    using demo_keep glob_seven by simp
qed

section \<open>Properties of the scheduler loop\<close>

lemma not_stopped:
  "(\<not> stop_backup senv s) = (\<forall>k. stop_at senv = Some k \<longrightarrow> s_awaits s < k)"
  by (cases "stop_at senv") (auto simp: stop_backup_def)

lemma do_sleep_through:
  "\<forall>k. stop_at senv = Some k \<longrightarrow> Suc (s_awaits s) < k \<Longrightarrow>
   do_sleep d senv s =
     (s\<lparr>s_awaits := Suc (s_awaits s), s_trace := s_trace s @ [Sleep d]\<rparr>, Proceed)"
  by (auto simp: do_sleep_def cancelled_here_def)

lemma do_sleep_cancel:
  "stop_at senv = Some (Suc (s_awaits s)) \<Longrightarrow>
   do_sleep d senv s =
     (s\<lparr>s_awaits := Suc (s_awaits s), s_trace := s_trace s @ [Sleep d]\<rparr>, Cancel)"
  by (simp add: do_sleep_def cancelled_here_def)

lemma failing_pass:
  assumes c: "cron_next senv (s_iter s) = Inl e"
    and k: "\<forall>k. stop_at senv = Some k \<longrightarrow> Suc (s_awaits s) < k"
  shows "scheduled_backup_task (Suc fuel) self senv s =
         scheduled_backup_task fuel self senv
           (s\<lparr>s_awaits := Suc (s_awaits s), s_iter := Suc (s_iter s),
              s_trace := s_trace s @ [LogTaskError e, Sleep 3600]\<rparr>)"
proof -
  from k have ns: "\<not> stop_backup senv s" by (auto simp: not_stopped)
  have i: "iteration self senv s =
      (s\<lparr>s_awaits := Suc (s_awaits s), s_trace := s_trace s @ [LogTaskError e, Sleep 3600]\<rparr>,
       Proceed)"
    using k by (simp add: iteration_def c do_sleep_through)
  have r: "s\<lparr>s_awaits := Suc (s_awaits s), s_trace := s_trace s @ [LogTaskError e, Sleep 3600],
            s_iter := Suc (s_iter s)\<rparr> =
          s\<lparr>s_awaits := Suc (s_awaits s), s_iter := Suc (s_iter s),
            s_trace := s_trace s @ [LogTaskError e, Sleep 3600]\<rparr>"
    by (cases s) simp
  show ?thesis using ns by (simp add: i r)
qed

lemma failing_pass_cancelled:
  assumes c: "cron_next senv (s_iter s) = Inl e"
    and k: "stop_at senv = Some (Suc (s_awaits s))"
  shows "scheduled_backup_task (Suc fuel) self senv s =
           (s\<lparr>s_awaits := Suc (s_awaits s),
              s_trace := s_trace s @ [LogTaskError e, Sleep 3600]\<rparr>, Some Cancelled)"
proof -
  from k have ns: "\<not> stop_backup senv s" by (auto simp: not_stopped)
  have i: "iteration self senv s =
      (s\<lparr>s_awaits := Suc (s_awaits s), s_trace := s_trace s @ [LogTaskError e, Sleep 3600]\<rparr>,
       Cancel)"
    using k by (simp add: iteration_def c do_sleep_cancel)
  show ?thesis using ns by (simp add: i)
qed

lemma failing_passes:
  "\<forall>i<n. cron_next senv (s_iter s + i) = Inl (e i) \<Longrightarrow>
   \<forall>k. stop_at senv = Some k \<longrightarrow> s_awaits s + n < k \<Longrightarrow>
   scheduled_backup_task (n + fuel) self senv s =
     scheduled_backup_task fuel self senv
       (s\<lparr>s_awaits := s_awaits s + n, s_iter := s_iter s + n,
          s_trace := s_trace s @ concat (map (\<lambda>i. [LogTaskError (e i), Sleep 3600]) [0..<n])\<rparr>)"
proof (induction n arbitrary: fuel)
  case 0
  then show ?case by simp
next
  case (Suc n)
  let ?s = "s\<lparr>s_awaits := s_awaits s + n, s_iter := s_iter s + n,
          s_trace := s_trace s @ concat (map (\<lambda>i. [LogTaskError (e i), Sleep 3600]) [0..<n])\<rparr>"
  have p: "\<forall>i<n. cron_next senv (s_iter s + i) = Inl (e i)"
    using Suc.prems(1) by simp
  have q: "\<forall>k. stop_at senv = Some k \<longrightarrow> s_awaits s + n < k"
    using Suc.prems(2) by auto
  have c: "cron_next senv (s_iter ?s) = Inl (e n)"
    using Suc.prems(1) by simp
  have k: "\<forall>k. stop_at senv = Some k \<longrightarrow> Suc (s_awaits ?s) < k"
    using Suc.prems(2) by simp
  have "scheduled_backup_task (Suc n + fuel) self senv s =
        scheduled_backup_task (n + Suc fuel) self senv s"
    by simp
  also have "\<dots> = scheduled_backup_task (Suc fuel) self senv ?s"
    by (rule Suc.IH[OF p q])
  also have "\<dots> = scheduled_backup_task fuel self senv
      (?s\<lparr>s_awaits := Suc (s_awaits ?s), s_iter := Suc (s_iter ?s),
          s_trace := s_trace ?s @ [LogTaskError (e n), Sleep 3600]\<rparr>)"
    by (rule failing_pass[OF c k])
  finally show ?case by simp
qed

lemma wait_minutes_through:
  "\<forall>k. stop_at senv = Some k \<longrightarrow> s_awaits s + n < k \<Longrightarrow>
   wait_minutes n senv s =
     (s\<lparr>s_awaits := s_awaits s + n, s_trace := s_trace s @ replicate n (Sleep 60)\<rparr>, Proceed)"
proof (induction n arbitrary: s)
  case 0
  then show ?case by simp
next
  case (Suc n)
  let ?s1 = "s\<lparr>s_awaits := Suc (s_awaits s), s_trace := s_trace s @ [Sleep 60]\<rparr>"
  from Suc.prems have ns: "\<not> stop_backup senv s" by (auto simp: not_stopped)
  from Suc.prems have d: "do_sleep 60 senv s = (?s1, Proceed)"
    by (intro do_sleep_through) auto
  from Suc.prems have "\<forall>k. stop_at senv = Some k \<longrightarrow> s_awaits ?s1 + n < k" by simp
  from Suc.IH[OF this] ns d show ?case
    by (simp add: replicate_append_same)
qed

lemma wait_minutes_cancel:
  "stop_at senv = Some k \<Longrightarrow> s_awaits s < k \<Longrightarrow> k \<le> s_awaits s + n \<Longrightarrow>
   wait_minutes n senv s =
     (s\<lparr>s_awaits := k, s_trace := s_trace s @ replicate (k - s_awaits s) (Sleep 60)\<rparr>, Cancel)"
proof (induction n arbitrary: s)
  case 0
  then show ?case by simp
next
  case (Suc n)
  let ?s1 = "s\<lparr>s_awaits := Suc (s_awaits s), s_trace := s_trace s @ [Sleep 60]\<rparr>"
  from Suc.prems have ns: "\<not> stop_backup senv s" by (auto simp: not_stopped)
  show ?case
  proof (cases "k = Suc (s_awaits s)")
    case True
    with Suc.prems(1) have "do_sleep 60 senv s = (?s1, Cancel)"
      by (intro do_sleep_cancel) simp
    with ns True show ?thesis by simp
  next
    case False
    with Suc.prems have d: "do_sleep 60 senv s = (?s1, Proceed)"
      by (intro do_sleep_through) auto
    from False Suc.prems have "s_awaits ?s1 < k" "k \<le> s_awaits ?s1 + n" by simp_all
    from Suc.IH[OF Suc.prems(1) this]
    have "wait_minutes n senv ?s1 =
        (?s1\<lparr>s_awaits := k,
            s_trace := s_trace ?s1 @ replicate (k - s_awaits ?s1) (Sleep 60)\<rparr>, Cancel)" .
    moreover from False Suc.prems(2) have "k - s_awaits s = Suc (k - Suc (s_awaits s))"
      by simp
    ultimately show ?thesis using ns d by simp
  qed
qed

lemma fmod60_range: "0 \<le> fmod60 x \<and> fmod60 x < 60"
proof -
  have "rat_of_int \<lfloor>x / 60\<rfloor> \<le> x / 60" by (rule of_int_floor_le)
  moreover have "x / 60 < rat_of_int \<lfloor>x / 60\<rfloor> + 1" by linarith
  ultimately show ?thesis by (simp add: fmod60_def field_simps)
qed

lemma waiting_cancel_minute:
  assumes "stop_at senv = Some k" "s_awaits s < k" "k \<le> s_awaits s + nat \<lfloor>wait_seconds / 60\<rfloor>"
  shows "waiting senv wait_seconds s =
     (s\<lparr>s_awaits := k, s_trace := s_trace s @ replicate (k - Suc (s_awaits s)) (Sleep 60) @ [Sleep 60]\<rparr>,
      Cancel)"
proof -
  from assms(2) have "k - s_awaits s = Suc (k - Suc (s_awaits s))" by simp
  then have "replicate (k - s_awaits s) (Sleep 60) =
      replicate (k - Suc (s_awaits s)) (Sleep 60) @ [Sleep 60]"
    by (simp add: replicate_append_same)
  with wait_minutes_cancel[OF assms] show ?thesis
    by (simp add: waiting_def)
qed

lemma waiting_cancel_rest:
  assumes "stop_at senv = Some k" "k = Suc (s_awaits s + nat \<lfloor>wait_seconds / 60\<rfloor>)"
  shows "waiting senv wait_seconds s =
     (s\<lparr>s_awaits := k,
        s_trace := s_trace s @ replicate (k - Suc (s_awaits s)) (Sleep 60)
                     @ [Sleep (fmod60 wait_seconds)]\<rparr>, Cancel)"
proof -
  let ?n = "nat \<lfloor>wait_seconds / 60\<rfloor>"
  let ?s1 = "s\<lparr>s_awaits := s_awaits s + ?n, s_trace := s_trace s @ replicate ?n (Sleep 60)\<rparr>"
  from assms have "\<forall>j. stop_at senv = Some j \<longrightarrow> s_awaits s + ?n < j" by simp
  then have m: "wait_minutes ?n senv s = (?s1, Proceed)" by (rule wait_minutes_through)
  from assms have ns: "\<not> stop_backup senv ?s1" by (simp add: not_stopped)
  from assms have "stop_at senv = Some (Suc (s_awaits ?s1))" by simp
  then have d: "do_sleep (fmod60 wait_seconds) senv ?s1 =
      (?s1\<lparr>s_awaits := Suc (s_awaits ?s1), s_trace := s_trace ?s1 @ [Sleep (fmod60 wait_seconds)]\<rparr>,
       Cancel)"
    by (rule do_sleep_cancel)
  from assms(2) have "k - Suc (s_awaits s) = ?n" by simp
  with m ns d assms(2) show ?thesis
    by (simp add: waiting_def)
qed

lemma waiting_through:
  assumes "\<forall>k. stop_at senv = Some k \<longrightarrow> Suc (s_awaits s + nat \<lfloor>wait_seconds / 60\<rfloor>) < k"
  shows "waiting senv wait_seconds s =
     (s\<lparr>s_awaits := Suc (s_awaits s + nat \<lfloor>wait_seconds / 60\<rfloor>),
        s_trace := s_trace s @ replicate (nat \<lfloor>wait_seconds / 60\<rfloor>) (Sleep 60)
                     @ [Sleep (fmod60 wait_seconds)]\<rparr>, Proceed)"
proof -
  let ?n = "nat \<lfloor>wait_seconds / 60\<rfloor>"
  let ?s1 = "s\<lparr>s_awaits := s_awaits s + ?n, s_trace := s_trace s @ replicate ?n (Sleep 60)\<rparr>"
  from assms have "\<forall>j. stop_at senv = Some j \<longrightarrow> s_awaits s + ?n < j" by auto
  then have m: "wait_minutes ?n senv s = (?s1, Proceed)" by (rule wait_minutes_through)
  from assms have ns: "\<not> stop_backup senv ?s1" by (auto simp: not_stopped)
  from assms have "\<forall>k. stop_at senv = Some k \<longrightarrow> Suc (s_awaits ?s1) < k" by simp
  then have d: "do_sleep (fmod60 wait_seconds) senv ?s1 =
      (?s1\<lparr>s_awaits := Suc (s_awaits ?s1), s_trace := s_trace ?s1 @ [Sleep (fmod60 wait_seconds)]\<rparr>,
       Proceed)"
    by (rule do_sleep_through)
  from m ns d show ?thesis
    by (simp add: waiting_def)
qed

lemma waiting_cancelled:
  assumes ns: "\<not> stop_backup senv s" and k: "stop_at senv = Some k"
    and le: "k \<le> Suc (s_awaits s + nat \<lfloor>wait_seconds / 60\<rfloor>)"
  shows "waiting senv wait_seconds s =
     (s\<lparr>s_awaits := k,
        s_trace := s_trace s @ replicate (k - Suc (s_awaits s)) (Sleep 60)
           @ [Sleep (if k \<le> s_awaits s + nat \<lfloor>wait_seconds / 60\<rfloor> then 60
                     else fmod60 wait_seconds)]\<rparr>,
      Cancel)"
proof (cases "k = Suc (s_awaits s + nat \<lfloor>wait_seconds / 60\<rfloor>)")
  case True
  from waiting_cancel_rest[OF k True] True show ?thesis
    by simp
next
  case False
  from ns k have "s_awaits s < k" by (simp add: not_stopped)
  moreover from False le have l: "k \<le> s_awaits s + nat \<lfloor>wait_seconds / 60\<rfloor>" by simp
  ultimately show ?thesis using waiting_cancel_minute[OF k, of s wait_seconds]
    by simp
qed

lemma waiting_sleeps:
  assumes ns: "\<not> stop_backup senv s"
  shows "\<exists>sl. s_trace (fst (waiting senv wait_seconds s)) = s_trace s @ map Sleep sl
            \<and> (\<forall>d \<in> set sl. 0 \<le> d \<and> d \<le> 60)"
proof (cases "\<forall>k. stop_at senv = Some k \<longrightarrow> Suc (s_awaits s + nat \<lfloor>wait_seconds / 60\<rfloor>) < k")
  case True
  let ?sl = "replicate (nat \<lfloor>wait_seconds / 60\<rfloor>) 60 @ [fmod60 wait_seconds]"
  have "s_trace (fst (waiting senv wait_seconds s)) = s_trace s @ map Sleep ?sl"
    by (simp add: waiting_through[OF True])
  moreover have "\<forall>d \<in> set ?sl. 0 \<le> d \<and> d \<le> 60"
    using fmod60_range[of wait_seconds] by auto
  ultimately show ?thesis by blast
next
  case False
  then obtain k where k: "stop_at senv = Some k"
    and le: "k \<le> Suc (s_awaits s + nat \<lfloor>wait_seconds / 60\<rfloor>)"
    by auto
  let ?d = "if k \<le> s_awaits s + nat \<lfloor>wait_seconds / 60\<rfloor> then 60 else fmod60 wait_seconds"
  let ?sl = "replicate (k - Suc (s_awaits s)) 60 @ [?d]"
  have "s_trace (fst (waiting senv wait_seconds s)) = s_trace s @ map Sleep ?sl"
    by (simp add: waiting_cancelled[OF ns k le])
  moreover have "\<forall>x \<in> set ?sl. 0 \<le> x \<and> x \<le> 60"
    using fmod60_range[of wait_seconds] by auto
  ultimately show ?thesis by blast
qed

lemma cancelled_in_wait:
  assumes p: "0 < wait_seconds" and c: "cron_next senv (s_iter s) = Inr wait_seconds"
    and ns: "\<not> stop_backup senv s"
    and w: "waiting senv wait_seconds s = (s', Cancel)"
  shows "scheduled_backup_task (Suc fuel) self senv s = (s', Some Cancelled)"
  using p ns by (simp add: iteration_def c w)

lemma pass_after_wait:
  assumes p: "0 < wait_seconds" and c: "cron_next senv (s_iter s) = Inr wait_seconds"
    and w: "waiting senv wait_seconds s = (s', Proceed)"
  shows "iteration self senv s = run_backup self senv s'"
  using p by (simp add: iteration_def c w)

lemma run_backup_through:
  "\<forall>k. stop_at senv = Some k \<longrightarrow> Suc (s_awaits s) < k \<Longrightarrow>
   run_backup self senv s =
     (s\<lparr>s_world := fst (create_backup self (backup_env senv (s_iter s)) (s_world s)),
        s_awaits := Suc (s_awaits s),
        s_trace := s_trace s
           @ [Backup (snd (create_backup self (backup_env senv (s_iter s)) (s_world s)))]\<rparr>,
      Proceed)"
  by (auto simp: run_backup_def cancelled_here_def split: prod.splits)

text \<open>
  The loop never sees the flag set: the cancellation that comes with it ends the task
  first. A pass begun with the flag unset ends cancelled, or with the flag still unset.
\<close>

lemma do_sleep_unseen:
  "\<not> stop_backup senv s \<Longrightarrow> do_sleep d senv s = (s', fl) \<Longrightarrow>
   fl = Cancel \<or> fl = Proceed \<and> \<not> stop_backup senv s'"
  by (auto simp: do_sleep_def cancelled_here_def not_stopped split: if_splits)

lemma run_backup_unseen:
  "\<not> stop_backup senv s \<Longrightarrow> run_backup self senv s = (s', fl) \<Longrightarrow>
   fl = Cancel \<or> fl = Proceed \<and> \<not> stop_backup senv s'"
  by (auto simp: run_backup_def cancelled_here_def not_stopped split: if_splits prod.splits)

lemma wait_minutes_unseen:
  "\<not> stop_backup senv s \<Longrightarrow> wait_minutes n senv s = (s', fl) \<Longrightarrow>
   fl = Cancel \<or> fl = Proceed \<and> \<not> stop_backup senv s'"
proof (induction n arbitrary: s)
  case 0
  then show ?case by simp
next
  case (Suc n)
  obtain s1 f1 where d: "do_sleep 60 senv s = (s1, f1)"
    by (cases "do_sleep 60 senv s")
  from do_sleep_unseen[OF Suc.prems(1) d] show ?case
  proof
    assume "f1 = Cancel"
    with Suc.prems d show ?thesis by simp
  next
    assume f: "f1 = Proceed \<and> \<not> stop_backup senv s1"
    with Suc.prems d have "wait_minutes n senv s1 = (s', fl)" by simp
    with f show ?thesis using Suc.IH by blast
  qed
qed

lemma waiting_unseen:
  assumes ns: "\<not> stop_backup senv s" and w: "waiting senv wait_seconds s = (s', fl)"
  shows "fl = Cancel \<or> fl = Proceed \<and> \<not> stop_backup senv s'"
proof -
  obtain s1 f1 where m: "wait_minutes (nat \<lfloor>wait_seconds / 60\<rfloor>) senv s = (s1, f1)"
    by (cases "wait_minutes (nat \<lfloor>wait_seconds / 60\<rfloor>) senv s")
  from wait_minutes_unseen[OF ns m] show ?thesis
  proof
    assume "f1 = Cancel"
    with w m show ?thesis by (simp add: waiting_def)
  next
    assume f: "f1 = Proceed \<and> \<not> stop_backup senv s1"
    with w m have "do_sleep (fmod60 wait_seconds) senv s1 = (s', fl)"
      by (simp add: waiting_def)
    with f show ?thesis using do_sleep_unseen by blast
  qed
qed

lemma iteration_unseen:
  assumes ns: "\<not> stop_backup senv s" and i: "iteration self senv s = (s', fl)"
  shows "fl = Cancel \<or> fl = Proceed \<and> \<not> stop_backup senv s'"
proof (cases "cron_next senv (s_iter s)")
  case (Inl e)
  have "\<not> stop_backup senv (s\<lparr>s_trace := s_trace s @ [LogTaskError e]\<rparr>)"
    using ns by (simp add: not_stopped)
  moreover from i Inl
  have "do_sleep 3600 senv (s\<lparr>s_trace := s_trace s @ [LogTaskError e]\<rparr>) = (s', fl)"
    by (simp add: iteration_def)
  ultimately show ?thesis by (rule do_sleep_unseen)
next
  case (Inr wait_seconds)
  obtain s1 f1 where w: "(if 0 < wait_seconds then waiting senv wait_seconds s else (s, Proceed))
      = (s1, f1)"
    by (cases "if 0 < wait_seconds then waiting senv wait_seconds s else (s, Proceed)")
  have "f1 = Cancel \<or> f1 = Proceed \<and> \<not> stop_backup senv s1"
  proof (cases "0 < wait_seconds")
    case True
    with w have "waiting senv wait_seconds s = (s1, f1)" by simp
    with ns show ?thesis by (rule waiting_unseen)
  next
    case False
    with w ns show ?thesis by simp
  qed
  then show ?thesis
  proof
    assume "f1 = Cancel"
    with i Inr w show ?thesis by (simp add: iteration_def)
  next
    assume f: "f1 = Proceed \<and> \<not> stop_backup senv s1"
    with i Inr w have "run_backup self senv s1 = (s', fl)"
      by (simp add: iteration_def)
    with f show ?thesis using run_backup_unseen by blast
  qed
qed

lemma task_never_returns:
  "\<not> stop_backup senv s \<Longrightarrow> snd (scheduled_backup_task fuel self senv s) \<noteq> Some Returned"
proof (induction fuel arbitrary: s)
  case 0
  then show ?case by simp
next
  case (Suc fuel)
  obtain s' fl where i: "iteration self senv s = (s', fl)"
    by (cases "iteration self senv s")
  from iteration_unseen[OF Suc.prems i] show ?case
  proof
    assume "fl = Cancel"
    with Suc.prems i show ?thesis by simp
  next
    assume f: "fl = Proceed \<and> \<not> stop_backup senv s'"
    then have "\<not> stop_backup senv (s'\<lparr>s_iter := Suc (s_iter s')\<rparr>)"
      by (simp add: not_stopped)
    from Suc.IH[OF this] f Suc.prems i show ?thesis by simp
  qed
qed

lemma backup_task_never_returns:
  "snd (backup_task fuel self senv w) \<noteq> Some Returned"
proof (cases "stop_at senv = Some 0")
  case True
  then show ?thesis by (simp add: backup_task_def)
next
  case False
  then have "\<not> stop_backup senv \<lparr>s_world = w, s_awaits = 0, s_iter = 0, s_trace = []\<rparr>"
    by (cases "stop_at senv") (simp_all add: stop_backup_def)
  from task_never_returns[OF this] False show ?thesis
    by (simp add: backup_task_def)
qed

lemma waiting_pass:
  assumes p: "0 < wait_seconds" and c: "cron_next senv (s_iter s) = Inr wait_seconds"
    and k: "\<forall>k. stop_at senv = Some k \<longrightarrow> Suc (Suc (s_awaits s + nat \<lfloor>wait_seconds / 60\<rfloor>)) < k"
  shows "scheduled_backup_task (Suc fuel) self senv s =
     scheduled_backup_task fuel self senv
       (s\<lparr>s_world := fst (create_backup self (backup_env senv (s_iter s)) (s_world s)),
          s_awaits := Suc (Suc (s_awaits s + nat \<lfloor>wait_seconds / 60\<rfloor>)),
          s_iter := Suc (s_iter s),
          s_trace := s_trace s @ replicate (nat \<lfloor>wait_seconds / 60\<rfloor>) (Sleep 60)
             @ [Sleep (fmod60 wait_seconds),
                Backup (snd (create_backup self (backup_env senv (s_iter s)) (s_world s)))]\<rparr>)"
proof -
  let ?n = "nat \<lfloor>wait_seconds / 60\<rfloor>"
  let ?s1 = "s\<lparr>s_awaits := Suc (s_awaits s + ?n),
        s_trace := s_trace s @ replicate ?n (Sleep 60) @ [Sleep (fmod60 wait_seconds)]\<rparr>"
  from k have ns: "\<not> stop_backup senv s" by (auto simp: not_stopped)
  from k have "\<forall>k. stop_at senv = Some k \<longrightarrow> Suc (s_awaits s + ?n) < k" by auto
  then have w: "waiting senv wait_seconds s = (?s1, Proceed)" by (rule waiting_through)
  from k have "\<forall>k. stop_at senv = Some k \<longrightarrow> Suc (s_awaits ?s1) < k" by simp
  from run_backup_through[OF this, of self] pass_after_wait[OF p c w, of self] ns
  show ?thesis by (cases s) simp
qed

lemma recovers_after_failures:
  assumes f: "\<forall>i<n. cron_next senv (s_iter s + i) = Inl (e i)"
    and c: "cron_next senv (s_iter s + n) = Inr wait_seconds" and p: "0 < wait_seconds"
    and k: "\<forall>k. stop_at senv = Some k \<longrightarrow>
              Suc (Suc (s_awaits s + n + nat \<lfloor>wait_seconds / 60\<rfloor>)) < k"
  shows "scheduled_backup_task (Suc (n + fuel)) self senv s =
     scheduled_backup_task fuel self senv
       (s\<lparr>s_world := fst (create_backup self (backup_env senv (s_iter s + n)) (s_world s)),
          s_awaits := Suc (Suc (s_awaits s + n + nat \<lfloor>wait_seconds / 60\<rfloor>)),
          s_iter := Suc (s_iter s + n),
          s_trace := s_trace s @ concat (map (\<lambda>i. [LogTaskError (e i), Sleep 3600]) [0..<n])
             @ replicate (nat \<lfloor>wait_seconds / 60\<rfloor>) (Sleep 60)
             @ [Sleep (fmod60 wait_seconds),
                Backup (snd (create_backup self (backup_env senv (s_iter s + n)) (s_world s)))]\<rparr>)"
proof -
  let ?s = "s\<lparr>s_awaits := s_awaits s + n, s_iter := s_iter s + n,
          s_trace := s_trace s @ concat (map (\<lambda>i. [LogTaskError (e i), Sleep 3600]) [0..<n])\<rparr>"
  from k have q: "\<forall>k. stop_at senv = Some k \<longrightarrow> s_awaits s + n < k" by auto
  have c': "cron_next senv (s_iter ?s) = Inr wait_seconds"
    using c by simp
  have k': "\<forall>k. stop_at senv = Some k \<longrightarrow>
              Suc (Suc (s_awaits ?s + nat \<lfloor>wait_seconds / 60\<rfloor>)) < k"
    using k by simp
  have "scheduled_backup_task (Suc (n + fuel)) self senv s =
        scheduled_backup_task (n + Suc fuel) self senv s"
    by simp
  also have "\<dots> = scheduled_backup_task (Suc fuel) self senv ?s"
    by (rule failing_passes[OF f q])
  also note waiting_pass[OF p c' k', of fuel self]
  finally show ?thesis by simp
qed

lemma demo_start: "s_awaits demo_state = 0" "s_iter demo_state = 0" "s_trace demo_state = []"
  by (simp_all add: demo_state_def)

lemma floor_30: "\<lfloor>(30::rat) / 60\<rfloor> = 0"
  by (rule floor_unique) simp_all

lemma floor_90: "\<lfloor>(90::rat) / 60\<rfloor> = 1"
  by (rule floor_unique) simp_all

lemma floor_days: "\<lfloor>(259200::rat) / 60\<rfloor> = 4320"
  by (rule floor_unique) simp_all

lemma fmod60_30: "fmod60 30 = 30"
  unfolding fmod60_def floor_30 by simp

lemma fmod60_90: "fmod60 90 = 30"
  unfolding fmod60_def floor_90 by simp

lemma demo_success:
  "map_of (snd (create_backup demo_plugin demo_env demo_world)) ''success'' = Some (PBool True)"
  by (simp add: demo_result)

text \<open>
  Claim C8. From any state of the loop in which the next \<open>n\<close> computations of the next run
  raise and no stop is requested before the \<open>n\<close> cooldowns are over, the loop makes these
  \<open>n\<close> passes, each logging the error and sleeping 3600 seconds, and then goes on as it
  would from the loop head: the rest of its run is the run from the state reached. When
  the next computation succeeds, that pass waits and runs the backup. When the stop is
  requested during a cooldown, it is the cancellation that ends the task, within that
  sleep.
\<close>

theorem cron_failure_cools_down:
  "((\<forall>i<n. cron_next senv (s_iter s + i) = Inl (e i))
      \<and> (\<forall>k. stop_at senv = Some k \<longrightarrow> s_awaits s + n < k) \<longrightarrow>
      scheduled_backup_task (n + fuel) self senv s =
        scheduled_backup_task fuel self senv
          (s\<lparr>s_awaits := s_awaits s + n, s_iter := s_iter s + n,
             s_trace := s_trace s
                @ concat (map (\<lambda>i. [LogTaskError (e i), Sleep 3600]) [0..<n])\<rparr>))
   \<and> ((\<forall>i<n. cron_next senv (s_iter s + i) = Inl (e i))
        \<and> cron_next senv (s_iter s + n) = Inr wait_seconds \<and> 0 < wait_seconds
        \<and> (\<forall>k. stop_at senv = Some k \<longrightarrow>
              Suc (Suc (s_awaits s + n + nat \<lfloor>wait_seconds / 60\<rfloor>)) < k) \<longrightarrow>
        scheduled_backup_task (Suc (n + fuel)) self senv s =
          scheduled_backup_task fuel self senv
            (s\<lparr>s_world := fst (create_backup self (backup_env senv (s_iter s + n)) (s_world s)),
               s_awaits := Suc (Suc (s_awaits s + n + nat \<lfloor>wait_seconds / 60\<rfloor>)),
               s_iter := Suc (s_iter s + n),
               s_trace := s_trace s
                  @ concat (map (\<lambda>i. [LogTaskError (e i), Sleep 3600]) [0..<n])
                  @ replicate (nat \<lfloor>wait_seconds / 60\<rfloor>) (Sleep 60)
                  @ [Sleep (fmod60 wait_seconds),
                     Backup (snd (create_backup self (backup_env senv (s_iter s + n))
                                    (s_world s)))]\<rparr>))
   \<and> (cron_next senv (s_iter s) = Inl err \<and> stop_at senv = Some (Suc (s_awaits s)) \<longrightarrow>
        scheduled_backup_task (Suc fuel) self senv s =
          (s\<lparr>s_awaits := Suc (s_awaits s),
             s_trace := s_trace s @ [LogTaskError err, Sleep 3600]\<rparr>, Some Cancelled))"
proof (intro conjI impI)
  assume "(\<forall>i<n. cron_next senv (s_iter s + i) = Inl (e i))
      \<and> (\<forall>k. stop_at senv = Some k \<longrightarrow> s_awaits s + n < k)"
  then show "scheduled_backup_task (n + fuel) self senv s =
        scheduled_backup_task fuel self senv
          (s\<lparr>s_awaits := s_awaits s + n, s_iter := s_iter s + n,
             s_trace := s_trace s
                @ concat (map (\<lambda>i. [LogTaskError (e i), Sleep 3600]) [0..<n])\<rparr>)"
    using failing_passes by blast
next
  assume a: "(\<forall>i<n. cron_next senv (s_iter s + i) = Inl (e i))
        \<and> cron_next senv (s_iter s + n) = Inr wait_seconds \<and> 0 < wait_seconds
        \<and> (\<forall>k. stop_at senv = Some k \<longrightarrow>
              Suc (Suc (s_awaits s + n + nat \<lfloor>wait_seconds / 60\<rfloor>)) < k)"
  then have f: "\<forall>i<n. cron_next senv (s_iter s + i) = Inl (e i)"
    and c: "cron_next senv (s_iter s + n) = Inr wait_seconds" and p: "0 < wait_seconds"
    and k: "\<forall>k. stop_at senv = Some k \<longrightarrow>
              Suc (Suc (s_awaits s + n + nat \<lfloor>wait_seconds / 60\<rfloor>)) < k"
    by blast+
  show "scheduled_backup_task (Suc (n + fuel)) self senv s =
          scheduled_backup_task fuel self senv
            (s\<lparr>s_world := fst (create_backup self (backup_env senv (s_iter s + n)) (s_world s)),
               s_awaits := Suc (Suc (s_awaits s + n + nat \<lfloor>wait_seconds / 60\<rfloor>)),
               s_iter := Suc (s_iter s + n),
               s_trace := s_trace s
                  @ concat (map (\<lambda>i. [LogTaskError (e i), Sleep 3600]) [0..<n])
                  @ replicate (nat \<lfloor>wait_seconds / 60\<rfloor>) (Sleep 60)
                  @ [Sleep (fmod60 wait_seconds),
                     Backup (snd (create_backup self (backup_env senv (s_iter s + n))
                                    (s_world s)))]\<rparr>)"
    by (rule recovers_after_failures[OF f c p k])
next
  assume "cron_next senv (s_iter s) = Inl err \<and> stop_at senv = Some (Suc (s_awaits s))"
  then show "scheduled_backup_task (Suc fuel) self senv s =
          (s\<lparr>s_awaits := Suc (s_awaits s),
             s_trace := s_trace s @ [LogTaskError err, Sleep 3600]\<rparr>, Some Cancelled)"
    using failing_pass_cancelled by blast
qed

theorem cron_failure_cools_down_witness:
  "cron_next bad_cron_env 0 = Inl bad_cron
   \<and> cron_next bad_cron_env 1 = Inl bad_cron
   \<and> cron_next bad_cron_env 2 = Inl bad_cron
   \<and> stop_at bad_cron_env = None
   \<and> scheduled_backup_task 3 demo_plugin bad_cron_env demo_state =
       (demo_state\<lparr>s_awaits := 3, s_iter := 3,
          s_trace := [LogTaskError bad_cron, Sleep 3600, LogTaskError bad_cron, Sleep 3600,
                      LogTaskError bad_cron, Sleep 3600]\<rparr>, None)
   \<and> stop_at (bad_cron_env\<lparr>stop_at := Some 1\<rparr>) = Some 1
   \<and> scheduled_backup_task 1 demo_plugin (bad_cron_env\<lparr>stop_at := Some 1\<rparr>) demo_state =
       (demo_state\<lparr>s_awaits := 1, s_trace := [LogTaskError bad_cron, Sleep 3600]\<rparr>,
        Some Cancelled)
   \<and> cron_next recovering_env 0 = Inl bad_cron
   \<and> cron_next recovering_env 1 = Inr 30
   \<and> stop_at recovering_env = None
   \<and> scheduled_backup_task 2 demo_plugin recovering_env demo_state =
       (demo_state\<lparr>s_world := fst (create_backup demo_plugin demo_env demo_world),
          s_awaits := 3, s_iter := 2,
          s_trace := [LogTaskError bad_cron, Sleep 3600, Sleep 30,
                      Backup (snd (create_backup demo_plugin demo_env demo_world))]\<rparr>, None)
   \<and> map_of (snd (create_backup demo_plugin demo_env demo_world)) ''success'' = Some (PBool True)"
proof -
  have c: "cron_next bad_cron_env 0 = Inl bad_cron" "cron_next bad_cron_env 1 = Inl bad_cron"
    "cron_next bad_cron_env 2 = Inl bad_cron"
    and n: "stop_at bad_cron_env = None"
    and k: "stop_at (bad_cron_env\<lparr>stop_at := Some 1\<rparr>) = Some 1"
    by (simp_all add: bad_cron_env_def)
  have a: "\<forall>i<3. cron_next bad_cron_env (s_iter demo_state + i) = Inl bad_cron"
    by (simp add: bad_cron_env_def)
  have b: "\<forall>k. stop_at bad_cron_env = Some k \<longrightarrow> s_awaits demo_state + 3 < k"
    by (simp add: n)
  have u: "[0..<3] = [0, 1, 2]"
    by (simp add: upt_rec)
  from cron_failure_cools_down[where senv = bad_cron_env and s = demo_state and n = 3
      and e = "\<lambda>i. bad_cron" and fuel = 0 and self = demo_plugin] a b
  have "scheduled_backup_task (3 + 0) demo_plugin bad_cron_env demo_state =
      scheduled_backup_task 0 demo_plugin bad_cron_env
        (demo_state\<lparr>s_awaits := s_awaits demo_state + 3, s_iter := s_iter demo_state + 3,
           s_trace := s_trace demo_state
              @ concat (map (\<lambda>i. [LogTaskError bad_cron, Sleep 3600]) [0..<3])\<rparr>)"
    by blast
  then have r1: "scheduled_backup_task 3 demo_plugin bad_cron_env demo_state =
       (demo_state\<lparr>s_awaits := 3, s_iter := 3,
          s_trace := [LogTaskError bad_cron, Sleep 3600, LogTaskError bad_cron, Sleep 3600,
                      LogTaskError bad_cron, Sleep 3600]\<rparr>, None)"
    unfolding u by (simp add: demo_start)
  have c': "cron_next (bad_cron_env\<lparr>stop_at := Some 1\<rparr>) (s_iter demo_state) = Inl bad_cron"
    and k': "stop_at (bad_cron_env\<lparr>stop_at := Some 1\<rparr>) = Some (Suc (s_awaits demo_state))"
    by (simp_all add: bad_cron_env_def demo_start)
  from cron_failure_cools_down[where senv = "bad_cron_env\<lparr>stop_at := Some 1\<rparr>"
      and s = demo_state and err = bad_cron and fuel = 0 and self = demo_plugin] c' k'
  have "scheduled_backup_task (Suc 0) demo_plugin (bad_cron_env\<lparr>stop_at := Some 1\<rparr>) demo_state =
          (demo_state\<lparr>s_awaits := Suc (s_awaits demo_state),
             s_trace := s_trace demo_state @ [LogTaskError bad_cron, Sleep 3600]\<rparr>, Some Cancelled)"
    by blast
  then have r2: "scheduled_backup_task 1 demo_plugin (bad_cron_env\<lparr>stop_at := Some 1\<rparr>) demo_state =
       (demo_state\<lparr>s_awaits := 1, s_trace := [LogTaskError bad_cron, Sleep 3600]\<rparr>,
        Some Cancelled)"
    by (simp add: demo_start)
  have c3: "cron_next recovering_env 0 = Inl bad_cron" "cron_next recovering_env 1 = Inr 30"
    and n3: "stop_at recovering_env = None"
    by (simp_all add: recovering_env_def)
  have a3: "\<forall>i<1. cron_next recovering_env (s_iter demo_state + i) = Inl bad_cron"
    and d3: "cron_next recovering_env (s_iter demo_state + 1) = Inr 30"
    by (simp_all add: recovering_env_def demo_start)
  have p3: "0 < (30::rat)" by simp
  have b3: "\<forall>k. stop_at recovering_env = Some k \<longrightarrow>
      Suc (Suc (s_awaits demo_state + 1 + nat \<lfloor>(30::rat) / 60\<rfloor>)) < k"
    by (simp add: n3)
  have w3: "backup_env recovering_env (s_iter demo_state + 1) = demo_env"
    "s_world demo_state = demo_world"
    by (simp_all add: recovering_env_def demo_state_def)
  from cron_failure_cools_down[where senv = recovering_env and s = demo_state and n = 1
      and e = "\<lambda>i. bad_cron" and fuel = 0 and self = demo_plugin and wait_seconds = 30]
    a3 d3 p3 b3
  have "scheduled_backup_task (Suc (1 + 0)) demo_plugin recovering_env demo_state =
      scheduled_backup_task 0 demo_plugin recovering_env
        (demo_state\<lparr>s_world := fst (create_backup demo_plugin
                 (backup_env recovering_env (s_iter demo_state + 1)) (s_world demo_state)),
           s_awaits := Suc (Suc (s_awaits demo_state + 1 + nat \<lfloor>(30::rat) / 60\<rfloor>)),
           s_iter := Suc (s_iter demo_state + 1),
           s_trace := s_trace demo_state
              @ concat (map (\<lambda>i. [LogTaskError bad_cron, Sleep 3600]) [0..<1])
              @ replicate (nat \<lfloor>(30::rat) / 60\<rfloor>) (Sleep 60)
              @ [Sleep (fmod60 30),
                 Backup (snd (create_backup demo_plugin
                    (backup_env recovering_env (s_iter demo_state + 1)) (s_world demo_state)))]\<rparr>)"
    by blast
  then have r3: "scheduled_backup_task 2 demo_plugin recovering_env demo_state =
       (demo_state\<lparr>s_world := fst (create_backup demo_plugin demo_env demo_world),
          s_awaits := 3, s_iter := 2,
          s_trace := [LogTaskError bad_cron, Sleep 3600, Sleep 30,
                      Backup (snd (create_backup demo_plugin demo_env demo_world))]\<rparr>, None)"
    unfolding w3 floor_30 fmod60_30 by (simp add: demo_start numeral_2_eq_2)
  from c n r1 k r2 c3 n3 r3 demo_success show ?thesis by blast
qed

text \<open>
  Claim C9. In the waiting phase the loop sleeps in steps of at most 60 seconds: the
  full minutes, then the remainder of less than a minute. A stop requested during any of
  these sleeps, however long the wait, ends the task within that sleep: no further sleep
  begins, no backup is run, and the installation and the backup directory are as they
  were. With no stop during the wait, the loop sleeps the full minutes and the remainder
  and goes on to the backup.
\<close>

theorem waiting_bounded:
  assumes "0 < wait_seconds" and "cron_next senv (s_iter s) = Inr wait_seconds"
    and "\<not> stop_backup senv s"
  shows "(\<exists>sl. s_trace (fst (waiting senv wait_seconds s)) = s_trace s @ map Sleep sl
            \<and> (\<forall>d \<in> set sl. 0 \<le> d \<and> d \<le> 60))
     \<and> 0 \<le> fmod60 wait_seconds \<and> fmod60 wait_seconds < 60
     \<and> (\<forall>k. stop_at senv = Some k \<and> k \<le> Suc (s_awaits s + nat \<lfloor>wait_seconds / 60\<rfloor>) \<longrightarrow>
          scheduled_backup_task (Suc fuel) self senv s =
            (s\<lparr>s_awaits := k,
               s_trace := s_trace s @ replicate (k - Suc (s_awaits s)) (Sleep 60)
                  @ [Sleep (if k \<le> s_awaits s + nat \<lfloor>wait_seconds / 60\<rfloor> then 60
                            else fmod60 wait_seconds)]\<rparr>,
             Some Cancelled))
     \<and> ((\<forall>k. stop_at senv = Some k \<longrightarrow> Suc (s_awaits s + nat \<lfloor>wait_seconds / 60\<rfloor>) < k) \<longrightarrow>
          iteration self senv s =
            run_backup self senv
              (s\<lparr>s_awaits := Suc (s_awaits s + nat \<lfloor>wait_seconds / 60\<rfloor>),
                 s_trace := s_trace s @ replicate (nat \<lfloor>wait_seconds / 60\<rfloor>) (Sleep 60)
                     @ [Sleep (fmod60 wait_seconds)]\<rparr>))"
proof (intro conjI allI impI)
  show "\<exists>sl. s_trace (fst (waiting senv wait_seconds s)) = s_trace s @ map Sleep sl
            \<and> (\<forall>d \<in> set sl. 0 \<le> d \<and> d \<le> 60)"
    using assms(3) by (rule waiting_sleeps)
next
  show "0 \<le> fmod60 wait_seconds" "fmod60 wait_seconds < 60"
    using fmod60_range[of wait_seconds] by simp_all
next
  fix k
  assume "stop_at senv = Some k \<and> k \<le> Suc (s_awaits s + nat \<lfloor>wait_seconds / 60\<rfloor>)"
  then have k: "stop_at senv = Some k"
    and le: "k \<le> Suc (s_awaits s + nat \<lfloor>wait_seconds / 60\<rfloor>)"
    by simp_all
  from cancelled_in_wait[OF assms waiting_cancelled[OF assms(3) k le]]
  show "scheduled_backup_task (Suc fuel) self senv s =
            (s\<lparr>s_awaits := k,
               s_trace := s_trace s @ replicate (k - Suc (s_awaits s)) (Sleep 60)
                  @ [Sleep (if k \<le> s_awaits s + nat \<lfloor>wait_seconds / 60\<rfloor> then 60
                            else fmod60 wait_seconds)]\<rparr>,
             Some Cancelled)" .
next
  assume "\<forall>k. stop_at senv = Some k \<longrightarrow> Suc (s_awaits s + nat \<lfloor>wait_seconds / 60\<rfloor>) < k"
  then have "waiting senv wait_seconds s =
     (s\<lparr>s_awaits := Suc (s_awaits s + nat \<lfloor>wait_seconds / 60\<rfloor>),
        s_trace := s_trace s @ replicate (nat \<lfloor>wait_seconds / 60\<rfloor>) (Sleep 60)
                     @ [Sleep (fmod60 wait_seconds)]\<rparr>, Proceed)"
    by (rule waiting_through)
  from pass_after_wait[OF assms(1,2) this]
  show "iteration self senv s =
            run_backup self senv
              (s\<lparr>s_awaits := Suc (s_awaits s + nat \<lfloor>wait_seconds / 60\<rfloor>),
                 s_trace := s_trace s @ replicate (nat \<lfloor>wait_seconds / 60\<rfloor>) (Sleep 60)
                     @ [Sleep (fmod60 wait_seconds)]\<rparr>)" .
qed

theorem waiting_bounded_witness:
  "0 < (259200::rat)
   \<and> cron_next (wait_env 259200 (Some 2)) (s_iter demo_state) = Inr 259200
   \<and> stop_at (wait_env 259200 (Some 2)) = Some 2
   \<and> scheduled_backup_task 1 demo_plugin (wait_env 259200 (Some 2)) demo_state =
       (demo_state\<lparr>s_awaits := 2, s_trace := [Sleep 60, Sleep 60]\<rparr>, Some Cancelled)
   \<and> 0 < (90::rat)
   \<and> cron_next (wait_env 90 (Some 2)) (s_iter demo_state) = Inr 90
   \<and> stop_at (wait_env 90 (Some 2)) = Some 2
   \<and> scheduled_backup_task 1 demo_plugin (wait_env 90 (Some 2)) demo_state =
       (demo_state\<lparr>s_awaits := 2, s_trace := [Sleep 60, Sleep 30]\<rparr>, Some Cancelled)
   \<and> cron_next (wait_env 90 None) (s_iter demo_state) = Inr 90
   \<and> stop_at (wait_env 90 None) = None
   \<and> iteration demo_plugin (wait_env 90 None) demo_state =
       (demo_state\<lparr>s_world := fst (create_backup demo_plugin demo_env demo_world),
          s_awaits := 3,
          s_trace := [Sleep 60, Sleep 30,
                      Backup (snd (create_backup demo_plugin demo_env demo_world))]\<rparr>, Proceed)
   \<and> map_of (snd (create_backup demo_plugin demo_env demo_world)) ''success'' = Some (PBool True)"
proof -
  have p1: "0 < (259200::rat)" and p2: "0 < (90::rat)" by simp_all
  have c1: "cron_next (wait_env 259200 (Some 2)) (s_iter demo_state) = Inr 259200"
    and c2: "cron_next (wait_env 90 (Some 2)) (s_iter demo_state) = Inr 90"
    and c3: "cron_next (wait_env 90 None) (s_iter demo_state) = Inr 90"
    and k1: "stop_at (wait_env 259200 (Some 2)) = Some 2"
    and k2: "stop_at (wait_env 90 (Some 2)) = Some 2"
    and k3: "stop_at (wait_env 90 None) = None"
    by (simp_all add: wait_env_def)
  have n1: "\<not> stop_backup (wait_env 259200 (Some 2)) demo_state"
    and n2: "\<not> stop_backup (wait_env 90 (Some 2)) demo_state"
    and n3: "\<not> stop_backup (wait_env 90 None) demo_state"
    by (simp_all add: stop_backup_def wait_env_def demo_state_def)
  have l1: "2 \<le> Suc (s_awaits demo_state + nat \<lfloor>(259200::rat) / 60\<rfloor>)"
    and l2: "2 \<le> Suc (s_awaits demo_state + nat \<lfloor>(90::rat) / 60\<rfloor>)"
    unfolding floor_days floor_90 by simp_all
  note t1 = waiting_bounded[OF p1 c1 n1, where fuel = 0 and self = demo_plugin]
  from t1 k1 l1
  have "scheduled_backup_task (Suc 0) demo_plugin (wait_env 259200 (Some 2)) demo_state =
            (demo_state\<lparr>s_awaits := 2,
               s_trace := s_trace demo_state @ replicate (2 - Suc (s_awaits demo_state)) (Sleep 60)
                  @ [Sleep (if 2 \<le> s_awaits demo_state + nat \<lfloor>(259200::rat) / 60\<rfloor> then 60
                            else fmod60 259200)]\<rparr>,
             Some Cancelled)"
    by blast
  then have r1: "scheduled_backup_task 1 demo_plugin (wait_env 259200 (Some 2)) demo_state =
       (demo_state\<lparr>s_awaits := 2, s_trace := [Sleep 60, Sleep 60]\<rparr>, Some Cancelled)"
    unfolding floor_days by (simp add: demo_start)
  note t2 = waiting_bounded[OF p2 c2 n2, where fuel = 0 and self = demo_plugin]
  from t2 k2 l2
  have "scheduled_backup_task (Suc 0) demo_plugin (wait_env 90 (Some 2)) demo_state =
            (demo_state\<lparr>s_awaits := 2,
               s_trace := s_trace demo_state @ replicate (2 - Suc (s_awaits demo_state)) (Sleep 60)
                  @ [Sleep (if 2 \<le> s_awaits demo_state + nat \<lfloor>(90::rat) / 60\<rfloor> then 60
                            else fmod60 90)]\<rparr>,
             Some Cancelled)"
    by blast
  then have r2: "scheduled_backup_task 1 demo_plugin (wait_env 90 (Some 2)) demo_state =
       (demo_state\<lparr>s_awaits := 2, s_trace := [Sleep 60, Sleep 30]\<rparr>, Some Cancelled)"
    unfolding floor_90 fmod60_90 by (simp add: demo_start)
  note t3 = waiting_bounded[OF p2 c3 n3, where fuel = 0 and self = demo_plugin]
  have a3: "\<forall>k. stop_at (wait_env 90 None) = Some k \<longrightarrow>
      Suc (s_awaits demo_state + nat \<lfloor>(90::rat) / 60\<rfloor>) < k"
    by (simp add: k3)
  from t3 a3
  have "iteration demo_plugin (wait_env 90 None) demo_state =
            run_backup demo_plugin (wait_env 90 None)
              (demo_state\<lparr>s_awaits := Suc (s_awaits demo_state + nat \<lfloor>(90::rat) / 60\<rfloor>),
                 s_trace := s_trace demo_state @ replicate (nat \<lfloor>(90::rat) / 60\<rfloor>) (Sleep 60)
                     @ [Sleep (fmod60 90)]\<rparr>)"
    by blast
  then have i: "iteration demo_plugin (wait_env 90 None) demo_state =
            run_backup demo_plugin (wait_env 90 None)
              (demo_state\<lparr>s_awaits := 2, s_trace := [Sleep 60, Sleep 30]\<rparr>)"
    unfolding floor_90 fmod60_90 by (simp add: demo_start numeral_2_eq_2)
  have "\<forall>k. stop_at (wait_env 90 None) = Some k \<longrightarrow>
      Suc (s_awaits (demo_state\<lparr>s_awaits := 2, s_trace := [Sleep 60, Sleep 30]\<rparr>)) < k"
    by (simp add: k3)
  from run_backup_through[OF this, of demo_plugin]
  have r3: "iteration demo_plugin (wait_env 90 None) demo_state =
       (demo_state\<lparr>s_world := fst (create_backup demo_plugin demo_env demo_world),
          s_awaits := 3,
          s_trace := [Sleep 60, Sleep 30,
                      Backup (snd (create_backup demo_plugin demo_env demo_world))]\<rparr>, Proceed)"
    unfolding i by (simp add: wait_env_def demo_state_def)
  from p1 c1 k1 r1 p2 c2 k2 r2 c3 k3 r3 demo_success show ?thesis
    by blast
qed

end
